theory Spec2Isabelle
  imports Complex_Main "HOL-Library.Char_ord" "HOL-Library.List_Lexorder"
    "HOL-Library.Product_Lexorder" "HOL-Library.Sublist" "HOL-Library.Multiset"
begin

section \<open>Python values, errors and string helpers\<close>

text \<open>
  The catalogue tool \<^verbatim>\<open>cattool.py\<close> is embedded function by function. Strings are
  \<^typ>\<open>string\<close> with the ordinal order on characters and the lexicographic order on
  lists, which is how Python compares \<^verbatim>\<open>str\<close> values. A \<^typ>\<open>char\<close> stands for
  the code point of the same number, so the model covers the strings whose code points are
  below 256; on these, \<^verbatim>\<open>str.lower\<close>, \<^verbatim>\<open>str.rstrip\<close> and the classes \<^verbatim>\<open>\s\<close> and
  \<^verbatim>\<open>\w\<close> of \<^verbatim>\<open>re\<close> are modelled as Python defines them for \<^verbatim>\<open>str\<close>. Numbers are the finite
  values of Python's \<^verbatim>\<open>int\<close> and \<^verbatim>\<open>float\<close>, embedded in \<^typ>\<open>real\<close>; the
  non-finite floats are outside the model. An exception is a value of \<open>error\<close>, and a
  function that can raise returns \<open>error + 'a\<close>.
\<close>

datatype error = KeyError | TypeError | AssertionError | OSError

datatype pyval = PNone | PStr string | PNum real

definition bind_err :: "error + 'a \<Rightarrow> ('a \<Rightarrow> error + 'b) \<Rightarrow> error + 'b" where
  "bind_err m f = (case m of Inl e \<Rightarrow> Inl e | Inr x \<Rightarrow> f x)"

text \<open>\<^verbatim>\<open>sep.join(xs)\<close>\<close>

fun join :: "string \<Rightarrow> string list \<Rightarrow> string" where
  "join sep [] = []"
| "join sep [x] = x"
| "join sep (x # y # ys) = x @ sep @ join sep (y # ys)"

text \<open>\<^verbatim>\<open>str.lower\<close>: the letters \<^verbatim>\<open>A\<close> to \<^verbatim>\<open>Z\<close> and the upper-case letters
  of Latin-1 (code points \<open>0xC0\<close> to \<open>0xDE\<close> without the multiplication sign \<open>0xD7\<close>) are
  mapped to their lower-case letters, 32 code points further; every other character below
  256 is left as it is.\<close>

definition upper_letters :: string where
  "upper_letters = ''ABCDEFGHIJKLMNOPQRSTUVWXYZ'' @
     [CHR 0xC0, CHR 0xC1, CHR 0xC2, CHR 0xC3, CHR 0xC4, CHR 0xC5, CHR 0xC6, CHR 0xC7,
      CHR 0xC8, CHR 0xC9, CHR 0xCA, CHR 0xCB, CHR 0xCC, CHR 0xCD, CHR 0xCE, CHR 0xCF,
      CHR 0xD0, CHR 0xD1, CHR 0xD2, CHR 0xD3, CHR 0xD4, CHR 0xD5, CHR 0xD6, CHR 0xD8,
      CHR 0xD9, CHR 0xDA, CHR 0xDB, CHR 0xDC, CHR 0xDD, CHR 0xDE]"

definition lower_letters :: string where
  "lower_letters = ''abcdefghijklmnopqrstuvwxyz'' @
     [CHR 0xE0, CHR 0xE1, CHR 0xE2, CHR 0xE3, CHR 0xE4, CHR 0xE5, CHR 0xE6, CHR 0xE7,
      CHR 0xE8, CHR 0xE9, CHR 0xEA, CHR 0xEB, CHR 0xEC, CHR 0xED, CHR 0xEE, CHR 0xEF,
      CHR 0xF0, CHR 0xF1, CHR 0xF2, CHR 0xF3, CHR 0xF4, CHR 0xF5, CHR 0xF6, CHR 0xF8,
      CHR 0xF9, CHR 0xFA, CHR 0xFB, CHR 0xFC, CHR 0xFD, CHR 0xFE]"

definition lower_char :: "char \<Rightarrow> char" where
  "lower_char c =
     (case map_of (zip upper_letters lower_letters) c of
        Some l \<Rightarrow> l
      | None \<Rightarrow> c)"

definition lower :: "string \<Rightarrow> string" where
  "lower s = map lower_char s"

text \<open>\<^verbatim>\<open>str(n)\<close> for a natural number, and the format specification \<^verbatim>\<open>0wd\<close>:
  the sign, when there is one, counts towards the width \<open>w\<close>.\<close>

definition digit_char :: "nat \<Rightarrow> char" where
  "digit_char d = ''0123456789'' ! d"

fun digits10 :: "nat \<Rightarrow> string" where
  "digits10 n = (if n < 10 then [digit_char n] else digits10 (n div 10) @ [digit_char (n mod 10)])"

declare digits10.simps [simp del]

definition zero_pad :: "nat \<Rightarrow> string \<Rightarrow> string" where
  "zero_pad w s = replicate (w - length s) (CHR ''0'') @ s"

definition format_0d :: "nat \<Rightarrow> int \<Rightarrow> string" where
  "format_0d w n =
     (if n < 0 then CHR ''-'' # zero_pad (w - 1) (digits10 (nat (- n)))
      else zero_pad w (digits10 (nat n)))"

section \<open>The place database\<close>

text \<open>
  A place-info record is a Python \<^verbatim>\<open>dict\<close> from field names to values, read from YAML
  or built by \<^verbatim>\<open>ingest_place\<close>. \<^verbatim>\<open>info.get(k)\<close> gives \<^verbatim>\<open>None\<close> for a missing
  key; \<^verbatim>\<open>info[k]\<close> raises \<^verbatim>\<open>KeyError\<close>.
\<close>

type_synonym info = "string \<rightharpoonup> pyval"

definition dict_get :: "info \<Rightarrow> string \<Rightarrow> pyval" where
  "dict_get d k = (case d k of None \<Rightarrow> PNone | Some v \<Rightarrow> v)"

definition dict_item :: "info \<Rightarrow> string \<Rightarrow> error + pyval" where
  "dict_item d k = (case d k of None \<Rightarrow> Inl KeyError | Some v \<Rightarrow> Inr v)"

text \<open>\<^verbatim>\<open>int(math.floor(x))\<close>: a \<^verbatim>\<open>TypeError\<close> on anything that is not a number.\<close>

definition math_floor :: "pyval \<Rightarrow> error + int" where
  "math_floor v = (case v of PNum x \<Rightarrow> Inr \<lfloor>x\<rfloor> | _ \<Rightarrow> Inl TypeError)"

text \<open>\<^verbatim>\<open>"_".join(k)\<close> on a list of values: every item has to be a \<^verbatim>\<open>str\<close>.\<close>

fun as_strs :: "pyval list \<Rightarrow> error + string list" where
  "as_strs [] = Inr []"
| "as_strs (PStr s # vs) = bind_err (as_strs vs) (\<lambda>ss. Inr (s # ss))"
| "as_strs (_ # vs) = Inl TypeError"

text \<open>The two optional components of the shard key of \<^verbatim>\<open>PlaceDatabase.rewrite\<close>
  (lines 215 to 223), each a list of zero or one string.\<close>

definition ra_part :: "info \<Rightarrow> error + pyval list" where
  "ra_part i =
     (let ra = dict_get i ''ra_hr'' in
      if ra \<noteq> PNone
      then bind_err (math_floor ra) (\<lambda>f. Inr [PStr (''ra'' @ format_0d 2 (f mod 24))])
      else Inr [])"

definition lon_part :: "info \<Rightarrow> error + pyval list" where
  "lon_part i =
     (let lon = dict_get i ''longitude'' in
      if lon \<noteq> PNone
      then bind_err (math_floor lon) (\<lambda>f. Inr [PStr (''lon'' @ format_0d 3 ((f div 10) * 10))])
      else Inr [])"

text \<open>The body of the first loop of \<^verbatim>\<open>PlaceDatabase.rewrite\<close>: the shard key of one
  record.\<close>

definition place_key :: "info \<Rightarrow> error + string" where
  "place_key i =
     bind_err (dict_item i ''data_set_type'') (\<lambda>d.
     bind_err (ra_part i) (\<lambda>r.
     bind_err (lon_part i) (\<lambda>l.
     bind_err (as_strs ([d] @ r @ l)) (\<lambda>k.
     Inr (lower (join ''_'' k))))))"

subsection \<open>The sort key and Python's tuple comparison\<close>

text \<open>
  \<^verbatim>\<open>k += u\<close> extends the list \<open>k\<close> by the items of the iterable \<open>u\<close>: for a
  \<^verbatim>\<open>str\<close> these are its characters, each a \<^verbatim>\<open>str\<close> of length one; a number is not
  iterable.
\<close>

definition iter_items :: "pyval \<Rightarrow> error + pyval list" where
  "iter_items v = (case v of PStr s \<Rightarrow> Inr (map (\<lambda>c. PStr [c]) s) | _ \<Rightarrow> Inl TypeError)"

definition url_part :: "info \<Rightarrow> string \<Rightarrow> error + pyval list" where
  "url_part i f = (let u = dict_get i f in if u \<noteq> PNone then iter_items u else Inr [])"

definition pair_part :: "info \<Rightarrow> string \<Rightarrow> string \<Rightarrow> error + pyval list" where
  "pair_part i f g =
     (let x = dict_get i f in
      if x \<noteq> PNone then bind_err (dict_item i g) (\<lambda>y. Inr [x, y]) else Inr [])"

text \<open>\<^verbatim>\<open>sortkey\<close>, the local function of \<^verbatim>\<open>PlaceDatabase.rewrite\<close> (lines 228 to 252).\<close>

definition sortkey :: "info \<Rightarrow> error + pyval list" where
  "sortkey i =
     bind_err (url_part i ''foreground_image_set_url'') (\<lambda>k1.
     bind_err (url_part i ''image_set_url'') (\<lambda>k2.
     bind_err (url_part i ''background_image_set_url'') (\<lambda>k3.
     bind_err (pair_part i ''dec_deg'' ''ra_hr'') (\<lambda>k4.
     bind_err (pair_part i ''latitude'' ''longitude'') (\<lambda>k5.
     bind_err (dict_item i ''name'') (\<lambda>n.
     Inr (k1 @ k2 @ k3 @ k4 @ k5 @ [n])))))))"

text \<open>
  \<^verbatim>\<open>a < b\<close> on two items: strings by code point, numbers by value, and a
  \<^verbatim>\<open>TypeError\<close> for any other pair. \<^verbatim>\<open>a < b\<close> on two tuples looks for the first
  index where the items are not equal (\<^verbatim>\<open>==\<close> never raises here) and compares those
  two; when there is none the shorter tuple is the smaller.
\<close>

fun item_lt :: "pyval \<Rightarrow> pyval \<Rightarrow> error + bool" where
  "item_lt (PStr s) (PStr t) = Inr (s < t)"
| "item_lt (PNum x) (PNum y) = Inr (x < y)"
| "item_lt _ _ = Inl TypeError"

fun tuple_lt :: "pyval list \<Rightarrow> pyval list \<Rightarrow> error + bool" where
  "tuple_lt [] [] = Inr False"
| "tuple_lt [] (y # ys) = Inr True"
| "tuple_lt (x # xs) [] = Inr False"
| "tuple_lt (x # xs) (y # ys) = (if x = y then tuple_lt xs ys else item_lt x y)"

text \<open>
  \<^verbatim>\<open>sorted(xs, key=f)\<close> computes the key of every item first, in order, and then sorts
  the items stably, comparing keys with \<^verbatim>\<open><\<close> only. The model inserts the items from
  left to right, each one after every item that is not greater. CPython's merge sort makes
  other comparisons on a list of three or more items, so on such a list it may raise where
  the model does not and the other way round; on two items both compare the second key
  with the first, once.
\<close>

fun map_err :: "('a \<Rightarrow> error + 'b) \<Rightarrow> 'a list \<Rightarrow> error + 'b list" where
  "map_err f [] = Inr []"
| "map_err f (x # xs) = bind_err (f x) (\<lambda>y. bind_err (map_err f xs) (\<lambda>ys. Inr (y # ys)))"

fun insert_by_key :: "pyval list \<times> 'a \<Rightarrow> (pyval list \<times> 'a) list \<Rightarrow> error + (pyval list \<times> 'a) list" where
  "insert_by_key x [] = Inr [x]"
| "insert_by_key x (y # ys) =
     bind_err (tuple_lt (fst x) (fst y)) (\<lambda>b.
       if b then Inr (x # y # ys)
       else bind_err (insert_by_key x ys) (\<lambda>r. Inr (y # r)))"

fun sort_pairs :: "(pyval list \<times> 'a) list \<Rightarrow> (pyval list \<times> 'a) list \<Rightarrow> error + (pyval list \<times> 'a) list" where
  "sort_pairs acc [] = Inr acc"
| "sort_pairs acc (x # xs) = bind_err (insert_by_key x acc) (\<lambda>acc'. sort_pairs acc' xs)"

definition sorted_by_key :: "('a \<Rightarrow> error + pyval list) \<Rightarrow> 'a list \<Rightarrow> error + 'a list" where
  "sorted_by_key f xs =
     bind_err (map_err f xs) (\<lambda>ks.
     bind_err (sort_pairs [] (zip ks xs)) (\<lambda>ps. Inr (map snd ps)))"

subsection \<open>Grouping into shards\<close>

text \<open>\<^verbatim>\<open>by_key.setdefault(key, []).append(x)\<close> on a \<^verbatim>\<open>dict\<close>, which keeps its keys in
  the order of their first insertion.\<close>

fun group_add :: "string \<Rightarrow> 'a \<Rightarrow> (string \<times> 'a list) list \<Rightarrow> (string \<times> 'a list) list" where
  "group_add k x [] = [(k, [x])]"
| "group_add k x ((k', xs) # g) =
     (if k = k' then (k', xs @ [x]) # g else (k', xs) # group_add k x g)"

fun place_groups :: "info list \<Rightarrow> (string \<times> info list) list \<Rightarrow> error + (string \<times> info list) list" where
  "place_groups [] g = Inr g"
| "place_groups (i # is) g = bind_err (place_key i) (\<lambda>k. place_groups is (group_add k i g))"

section \<open>The catalogue directory and its replacement\<close>

text \<open>
  A rewrite touches three paths: the catalogue directory \<^verbatim>\<open>db_dir\<close>, the temporary
  directory \<^verbatim>\<open>db_dir + ".new"\<close> and \<^verbatim>\<open>db_dir + ".old"\<close>. The file system is the
  state of these three: each is missing or a directory, a map from file names to contents.
  A file-system call can fail for a reason outside this state (permissions, a full disk);
  the environment \<open>env\<close> says which calls do. \<^verbatim>\<open>mkdir\<close>, \<^verbatim>\<open>open\<close> and
  \<^verbatim>\<open>rename\<close> change nothing when they fail. \<^verbatim>\<open>shutil.rmtree\<close> deletes the entries
  of the directory one by one and then the directory, and raises at the first deletion
  that fails, so what it deleted before stays deleted: \<open>env Rmtree\<close> says that the call
  raises, and \<open>env (Kept name)\<close> that the entry \<open>name\<close> is still there when it does.
\<close>

record 'c fs =
  db_dir :: "(string \<rightharpoonup> 'c) option"
  new_dir :: "(string \<rightharpoonup> 'c) option"
  old_dir :: "(string \<rightharpoonup> 'c) option"

datatype io_call = Mkdir | OpenFile string | RenameOld | RenameNew | Rmtree | Kept string

text \<open>\<^verbatim>\<open>tempdir.mkdir()\<close>: raises when the path exists.\<close>

definition mkdir_new :: "(io_call \<Rightarrow> bool) \<Rightarrow> 'c fs \<Rightarrow> error + 'c fs" where
  "mkdir_new env s =
     (if env Mkdir \<or> new_dir s \<noteq> None then Inl OSError
      else Inr (s\<lparr>new_dir := Some Map.empty\<rparr>))"

text \<open>
  Opening \<^verbatim>\<open>tempdir / name\<close> for writing and writing \<open>c\<close> to it. The file is an
  entry of the temporary directory when \<open>name\<close> is a plain file name. A name with a path
  separator is resolved by the file system to a path in another directory, and the model
  does not follow it. The key of an imageset shard begins with the value of an enumeration
  member, so a name with a separator there leads through a directory that does not exist
  and \<^verbatim>\<open>open\<close> fails: these are the environments with \<open>env (OpenFile name)\<close>. The
  key of a place shard begins with a string read from YAML, and a name such as
  \<^verbatim>\<open>../x.yml\<close> leaves the temporary directory; what is stated on the directories left
  by a failed \<^verbatim>\<open>PlaceDatabase.rewrite\<close> is stated for plain names (\<open>plain_name\<close>).
\<close>

definition plain_name :: "string \<Rightarrow> bool" where
  "plain_name name \<longleftrightarrow> CHR ''/'' \<notin> set name"

definition write_new :: "(io_call \<Rightarrow> bool) \<Rightarrow> string \<Rightarrow> 'c \<Rightarrow> 'c fs \<Rightarrow> error + 'c fs" where
  "write_new env name c s =
     (case new_dir s of
        None \<Rightarrow> Inl OSError
      | Some d \<Rightarrow> if env (OpenFile name) then Inl OSError
                  else Inr (s\<lparr>new_dir := Some (d(name \<mapsto> c))\<rparr>))"

text \<open>What \<^verbatim>\<open>rmtree\<close> leaves of a directory when it raises.\<close>

definition kept_entries :: "(io_call \<Rightarrow> bool) \<Rightarrow> (string \<rightharpoonup> 'c) \<Rightarrow> (string \<rightharpoonup> 'c)" where
  "kept_entries env d = (\<lambda>name. if env (Kept name) then d name else None)"

text \<open>
  The last four lines of both \<^verbatim>\<open>rewrite\<close> methods (99 to 102 and 261 to 264).
  \<^verbatim>\<open>rename\<close> is POSIX \<^verbatim>\<open>rename(2)\<close>: the source has to exist, and a target that
  exists has to be an empty directory. The result is the error raised, if any, and the
  file system left behind.
\<close>

definition swap_dirs :: "(io_call \<Rightarrow> bool) \<Rightarrow> 'c fs \<Rightarrow> error option \<times> 'c fs" where
  "swap_dirs env s =
     (if env RenameOld \<or> db_dir s = None \<or> (old_dir s \<noteq> None \<and> old_dir s \<noteq> Some Map.empty)
      then (Some OSError, s)
      else let s1 = s\<lparr>old_dir := db_dir s, db_dir := None\<rparr> in
        if env RenameNew \<or> new_dir s1 = None then (Some OSError, s1)
        else let s2 = s1\<lparr>db_dir := new_dir s1, new_dir := None\<rparr> in
          if env Rmtree then (Some OSError, s2\<lparr>old_dir := map_option (kept_entries env) (old_dir s2)\<rparr>)
          else (None, s2\<lparr>old_dir := None\<rparr>))"

subsection \<open>\<^verbatim>\<open>PlaceDatabase.rewrite\<close>\<close>

text \<open>The second loop: each shard is sorted and handed to \<^verbatim>\<open>write_multi_yaml\<close>; the
  content of a shard file is the sorted list of records.\<close>

fun write_place_shards ::
  "(io_call \<Rightarrow> bool) \<Rightarrow> (string \<times> info list) list \<Rightarrow> info list fs \<Rightarrow> error option \<times> info list fs" where
  "write_place_shards env [] s = (None, s)"
| "write_place_shards env ((key, infos) # g) s =
     (case sorted_by_key sortkey infos of
        Inl e \<Rightarrow> (Some e, s)
      | Inr sorted_infos \<Rightarrow>
          (case write_new env (key @ ''.yml'') sorted_infos s of
             Inl e \<Rightarrow> (Some e, s)
           | Inr s' \<Rightarrow> write_place_shards env g s'))"

definition place_rewrite :: "(io_call \<Rightarrow> bool) \<Rightarrow> info list \<Rightarrow> info list fs \<Rightarrow> error option \<times> info list fs" where
  "place_rewrite env infos s =
     (case place_groups infos [] of
        Inl e \<Rightarrow> (Some e, s)
      | Inr by_key \<Rightarrow>
          (case mkdir_new env s of
             Inl e \<Rightarrow> (Some e, s)
           | Inr s1 \<Rightarrow>
               (case write_place_shards env by_key s1 of
                  (Some e, s2) \<Rightarrow> (Some e, s2)
                | (None, s2) \<Rightarrow> swap_dirs env s2)))"

section \<open>The XML serializer \<^verbatim>\<open>prettify\<close>\<close>

text \<open>
  \<^verbatim>\<open>prettify\<close> hands the element to \<^verbatim>\<open>indent_xml\<close> and \<^verbatim>\<open>ElementTree.write\<close>,
  which are not part of this repository, and then works on the lines of their text. The
  model starts from these lines. The patterns are \<^verbatim>\<open>str\<close> patterns, so their classes
  are the Unicode ones. Below code point 256, \<^verbatim>\<open>\s\<close> matches the ASCII white space,
  the four separators \<open>0x1C\<close> to \<open>0x1F\<close>, the next-line character \<open>0x85\<close> and the
  no-break space \<open>0xA0\<close>, which are also the characters \<^verbatim>\<open>rstrip\<close> removes: this is
  \<open>is_space\<close>. \<^verbatim>\<open>\w\<close> matches the underscore and every character that is
  alphanumeric for \<^verbatim>\<open>str.isalnum\<close>, which below 256 are the ASCII letters and digits
  and the letters, superscript digits and fractions of Latin-1: this is \<open>is_word\<close>.
  \<^verbatim>\<open>[-_a-zA-Z0-9]\<close> is \<open>is_tag_char\<close>.
\<close>

definition is_space :: "char \<Rightarrow> bool" where
  "is_space c \<longleftrightarrow>
     c \<in> {CHR 0x09, CHR 0x0A, CHR 0x0B, CHR 0x0C, CHR 0x0D, CHR 0x1C, CHR 0x1D, CHR 0x1E, CHR 0x1F,
          CHR '' '', CHR 0x85, CHR 0xA0}"

definition latin1_word_chars :: string where
  "latin1_word_chars =
     [CHR 0xAA, CHR 0xB2, CHR 0xB3, CHR 0xB5, CHR 0xB9, CHR 0xBA, CHR 0xBC, CHR 0xBD,
      CHR 0xBE, CHR 0xC0, CHR 0xC1, CHR 0xC2, CHR 0xC3, CHR 0xC4, CHR 0xC5, CHR 0xC6,
      CHR 0xC7, CHR 0xC8, CHR 0xC9, CHR 0xCA, CHR 0xCB, CHR 0xCC, CHR 0xCD, CHR 0xCE,
      CHR 0xCF, CHR 0xD0, CHR 0xD1, CHR 0xD2, CHR 0xD3, CHR 0xD4, CHR 0xD5, CHR 0xD6,
      CHR 0xD8, CHR 0xD9, CHR 0xDA, CHR 0xDB, CHR 0xDC, CHR 0xDD, CHR 0xDE, CHR 0xDF,
      CHR 0xE0, CHR 0xE1, CHR 0xE2, CHR 0xE3, CHR 0xE4, CHR 0xE5, CHR 0xE6, CHR 0xE7,
      CHR 0xE8, CHR 0xE9, CHR 0xEA, CHR 0xEB, CHR 0xEC, CHR 0xED, CHR 0xEE, CHR 0xEF,
      CHR 0xF0, CHR 0xF1, CHR 0xF2, CHR 0xF3, CHR 0xF4, CHR 0xF5, CHR 0xF6, CHR 0xF8,
      CHR 0xF9, CHR 0xFA, CHR 0xFB, CHR 0xFC, CHR 0xFD, CHR 0xFE, CHR 0xFF]"

definition is_word :: "char \<Rightarrow> bool" where
  "is_word c \<longleftrightarrow>
     c \<in> set ''abcdefghijklmnopqrstuvwxyzABCDEFGHIJKLMNOPQRSTUVWXYZ0123456789_'' \<or>
     c \<in> set latin1_word_chars"

definition is_tag_char :: "char \<Rightarrow> bool" where
  "is_tag_char c \<longleftrightarrow>
     c \<in> set ''-_abcdefghijklmnopqrstuvwxyzABCDEFGHIJKLMNOPQRSTUVWXYZ0123456789''"

definition rstrip :: "string \<Rightarrow> string" where
  "rstrip s = rev (dropWhile is_space (rev s))"

text \<open>\<^verbatim>\<open>START_ATTR_TAG_RE.match(line)\<close> for \<^verbatim>\<open>^(\s*)<([-_a-zA-Z0-9]+)\s\<close>: the two
  groups and the text after the end of the match.\<close>

definition start_attr_tag :: "string \<Rightarrow> (string \<times> string \<times> string) option" where
  "start_attr_tag line =
     (let indent = takeWhile is_space line in
      case dropWhile is_space line of
        [] \<Rightarrow> None
      | c # r \<Rightarrow>
          if c \<noteq> CHR ''<'' then None
          else let tag = takeWhile is_tag_char r in
            (case dropWhile is_tag_char r of
               [] \<Rightarrow> None
             | w # rest \<Rightarrow> if tag \<noteq> [] \<and> is_space w then Some (indent, tag, rest) else None))"

text \<open>\<^verbatim>\<open>ATTRS_DONE_RE.match(text)\<close> for \<^verbatim>\<open>^\s*(/?)>$\<close>: whether the group is not
  empty. \<^verbatim>\<open>$\<close> matches at the end of the text and before a line feed that ends it.\<close>

definition at_end :: "string \<Rightarrow> bool" where
  "at_end e \<longleftrightarrow> e = [] \<or> e = [CHR 0x0A]"

definition attrs_done :: "string \<Rightarrow> bool option" where
  "attrs_done text =
     (case dropWhile is_space text of
        [] \<Rightarrow> None
      | c # r \<Rightarrow>
          if c = CHR ''>'' then (if at_end r then Some False else None)
          else if c = CHR ''/'' then
            (case r of
               [] \<Rightarrow> None
             | c' # r' \<Rightarrow> if c' = CHR ''>'' \<and> at_end r' then Some True else None)
          else None)"

text \<open>\<^verbatim>\<open>ATTR_RE.match(text)\<close> for \<^verbatim>\<open>^\s*(\w+)="([^"]*)"\<close>: the two groups and the
  text after the end of the match.\<close>

definition attr_match :: "string \<Rightarrow> (string \<times> string \<times> string) option" where
  "attr_match text =
     (let r = dropWhile is_space text;
          name = takeWhile is_word r in
      if name = [] then None
      else case dropWhile is_word r of
        e # q # r2 \<Rightarrow>
          if e = CHR ''='' \<and> q = CHR 0x22 then
            (case dropWhile (\<lambda>c. c \<noteq> CHR 0x22) r2 of
               [] \<Rightarrow> None
             | _ # rest \<Rightarrow> Some (name, takeWhile (\<lambda>c. c \<noteq> CHR 0x22) r2, rest))
          else None
      | _ \<Rightarrow> None)"

text \<open>
  The \<^verbatim>\<open>while m_done is None\<close> loop (lines 328 to 340). \<open>attrs\<close> is the \<^verbatim>\<open>dict\<close> of
  the attributes read so far, in the order read. Both \<^verbatim>\<open>assert\<close> statements are
  modelled as executed.
\<close>

function chomp :: "string \<Rightarrow> (string \<times> string) list \<Rightarrow> error + ((string \<times> string) list \<times> bool)" where
  "chomp text attrs =
     (case attrs_done text of
        Some self_ending \<Rightarrow> Inr (attrs, self_ending)
      | None \<Rightarrow>
          (case attr_match text of
             None \<Rightarrow> Inl AssertionError
           | Some (attr_name, attr_val, rest) \<Rightarrow>
               if attr_name \<in> fst ` set attrs then Inl AssertionError
               else chomp rest (attrs @ [(attr_name, attr_val)])))"
  by pat_completeness auto

lemma attr_match_shorter:
  assumes "attr_match text = Some (n, v, rest)"
  shows "length rest < length text"
proof -
  let ?r = "dropWhile is_space text"
  obtain e q r2 where a: "dropWhile is_word ?r = e # q # r2"
    using assms by (auto simp: attr_match_def Let_def split: list.splits if_splits)
  obtain d where b: "dropWhile (\<lambda>c. c \<noteq> CHR 0x22) r2 = d # rest"
    using assms a by (auto simp: attr_match_def Let_def split: list.splits if_splits)
  have "length rest < length r2"
    using length_dropWhile_le[of "\<lambda>c. c \<noteq> CHR 0x22" r2] b by simp
  also have "length r2 < length ?r"
    using length_dropWhile_le[of is_word ?r] a by simp
  also have "length ?r \<le> length text"
    by (rule length_dropWhile_le)
  finally show ?thesis .
qed

termination chomp
  by (relation "measure (\<lambda>(text, attrs). length text)") (auto dest: attr_match_shorter)

declare chomp.simps [simp del]

text \<open>The lines printed for one tag (lines 344 to 352). \<^verbatim>\<open>sorted(attrs.items())\<close> sorts
  the pairs of name and value.\<close>

definition attr_line :: "string \<Rightarrow> string \<times> string \<Rightarrow> string" where
  "attr_line indent a = indent @ ''  '' @ fst a @ ''=\"'' @ snd a @ ''\"''"

definition tag_lines :: "string \<Rightarrow> string \<Rightarrow> (string \<times> string) list \<Rightarrow> bool \<Rightarrow> string list" where
  "tag_lines indent tag attrs self_ending =
     [indent @ ''<'' @ tag] @ map (attr_line indent) (sort attrs) @
     [if self_ending then indent @ ''></'' @ tag @ ''>'' else indent @ ''>'']"

text \<open>The body of the \<^verbatim>\<open>for line in text.splitlines()\<close> loop: the lines printed for
  one line of the text, or the failed assertion.\<close>

definition prettify_line :: "string \<Rightarrow> error + string list" where
  "prettify_line line =
     (case start_attr_tag line of
        None \<Rightarrow> Inr [line]
      | Some (indent, tag, rest) \<Rightarrow>
          bind_err (chomp (rstrip rest) []) (\<lambda>(attrs, self_ending).
            Inr (tag_lines indent tag attrs self_ending)))"

text \<open>The loop: what has been printed to \<^verbatim>\<open>out_stream\<close> when \<^verbatim>\<open>prettify\<close> returns or
  raises, and the error raised, if any.\<close>

fun prettify_lines :: "string list \<Rightarrow> string list \<Rightarrow> string list \<times> error option" where
  "prettify_lines [] out = (out, None)"
| "prettify_lines (line # lines) out =
     (case prettify_line line of
        Inl e \<Rightarrow> (out, Some e)
      | Inr printed \<Rightarrow> prettify_lines lines (out @ printed))"

definition prettify :: "string list \<Rightarrow> string list \<times> error option" where
  "prettify text_lines = prettify_lines text_lines []"

section \<open>The imageset database\<close>

text \<open>
  The fields of \<^verbatim>\<open>ImageSet\<close> that \<^verbatim>\<open>cattool.py\<close> reads. \<open>data_set_type\<close> and
  \<open>band_pass\<close> hold the \<^verbatim>\<open>.value\<close> string of the enumeration member. Every other field
  of an imageset is in the extension of the record.
\<close>

record imageset =
  url :: string
  data_set_type :: string
  reference_frame :: "string option"
  band_pass :: "string option"

text \<open>The state of an \<^verbatim>\<open>ImagesetDatabase\<close>: the \<^verbatim>\<open>dict\<close> \<^verbatim>\<open>by_url\<close> in insertion
  order, and what has been printed to \<^verbatim>\<open>sys.stderr\<close>.\<close>

record 'a idb =
  by_url :: "(string \<times> 'a imageset_scheme) list"
  stderr :: "string list"

definition warn :: "string \<Rightarrow> 'a idb \<Rightarrow> 'a idb" where
  "warn text db = db\<lparr>stderr := stderr db @ [''warning: '' @ text]\<rparr>"

definition add_imageset :: "'a imageset_scheme \<Rightarrow> 'a idb \<Rightarrow> 'a idb" where
  "add_imageset imgset db =
     (if url imgset \<in> fst ` set (by_url db)
      then warn (''dropping duplicated imageset `'' @ url imgset @ ''`'') db
      else db\<lparr>by_url := by_url db @ [(url imgset, imgset)]\<rparr>)"

text \<open>The shard key of one imageset (lines 80 to 86).\<close>

definition imageset_key :: "'a imageset_scheme \<Rightarrow> string" where
  "imageset_key imgset =
     (let k0 = [data_set_type imgset];
          k1 = (case reference_frame imgset of
                  None \<Rightarrow> k0
                | Some frame \<Rightarrow> if frame \<noteq> ''Sky'' then k0 @ [frame] else k0);
          k2 = (case band_pass imgset of None \<Rightarrow> k1 | Some band \<Rightarrow> k1 @ [band])
      in lower (join ''_'' k2))"

definition imageset_groups :: "'a imageset_scheme list \<Rightarrow> (string \<times> 'a imageset_scheme list) list" where
  "imageset_groups imgsets = foldl (\<lambda>g imgset. group_add (imageset_key imgset) imgset g) [] imgsets"

text \<open>
  The second loop of \<^verbatim>\<open>ImagesetDatabase.rewrite\<close>. \<open>doc_lines key children\<close> stands
  for the lines of the text that \<^verbatim>\<open>Folder.to_xml\<close>, \<^verbatim>\<open>indent_xml\<close> and
  \<^verbatim>\<open>ElementTree.write\<close> make of the folder named \<open>key\<close> with these children; the three
  are not part of this repository. The file is opened before \<^verbatim>\<open>prettify\<close> runs, and holds
  what \<^verbatim>\<open>prettify\<close> has printed, also when an assertion fails.
\<close>

fun write_imageset_shards ::
  "(io_call \<Rightarrow> bool) \<Rightarrow> (string \<Rightarrow> 'a imageset_scheme list \<Rightarrow> string list) \<Rightarrow>
   (string \<times> 'a imageset_scheme list) list \<Rightarrow> string list fs \<Rightarrow> error option \<times> string list fs" where
  "write_imageset_shards env doc_lines [] s = (None, s)"
| "write_imageset_shards env doc_lines ((key, imgsets) # g) s =
     (let children = sort_key url imgsets;
          (printed, err) = prettify (doc_lines key children)
      in case write_new env (key @ ''.xml'') printed s of
           Inl e \<Rightarrow> (Some e, s)
         | Inr s' \<Rightarrow>
             (case err of
                Some e \<Rightarrow> (Some e, s')
              | None \<Rightarrow> write_imageset_shards env doc_lines g s'))"

definition imageset_rewrite ::
  "(io_call \<Rightarrow> bool) \<Rightarrow> (string \<Rightarrow> 'a imageset_scheme list \<Rightarrow> string list) \<Rightarrow>
   'a idb \<Rightarrow> string list fs \<Rightarrow> error option \<times> string list fs" where
  "imageset_rewrite env doc_lines db s =
     (let by_key = imageset_groups (map snd (by_url db)) in
      case mkdir_new env s of
        Inl e \<Rightarrow> (Some e, s)
      | Inr s1 \<Rightarrow>
          (case write_imageset_shards env doc_lines by_key s1 of
             (Some e, s2) \<Rightarrow> (Some e, s2)
           | (None, s2) \<Rightarrow> swap_dirs env s2))"

section \<open>Specifications and examples for the imageset database\<close>

text \<open>The components of the shard key as the partition rule lists them: the data-set
  type, the reference frame unless it is missing or \<^verbatim>\<open>Sky\<close>, the band pass unless it
  is missing.\<close>

definition key_components :: "'a imageset_scheme \<Rightarrow> string list" where
  "key_components imgset =
     [data_set_type imgset] @
     (case reference_frame imgset of None \<Rightarrow> [] | Some frame \<Rightarrow> if frame = ''Sky'' then [] else [frame]) @
     (case band_pass imgset of None \<Rightarrow> [] | Some band \<Rightarrow> [band])"


text \<open>A sequence of \<^verbatim>\<open>add_imageset\<close> calls, and the database \<^verbatim>\<open>__init__\<close> starts
  from.\<close>

definition add_all :: "'a imageset_scheme list \<Rightarrow> 'a idb \<Rightarrow> 'a idb" where
  "add_all imgsets db = foldl (\<lambda>d imgset. add_imageset imgset d) db imgsets"

definition new_idb :: "'a idb" where
  "new_idb = \<lparr>by_url = [], stderr = []\<rparr>"


text \<open>What \<^verbatim>\<open>add_imageset\<close> maintains: no URL is held twice, and every imageset is held
  under its own URL.\<close>

definition idb_inv :: "'a idb \<Rightarrow> bool" where
  "idb_inv db \<longleftrightarrow> distinct (map fst (by_url db)) \<and> list_all (\<lambda>(u, s). url s = u) (by_url db)"


text \<open>What \<^verbatim>\<open>prettify\<close> prints for the shard \<open>key\<close> with the given members, and the
  directory of shard files that belongs to a list of imagesets: one file per key, named
  after it.\<close>

definition shard_text :: "(string \<Rightarrow> 'a imageset_scheme list \<Rightarrow> string list) \<Rightarrow> string \<Rightarrow> 'a imageset_scheme list \<Rightarrow> string list \<times> error option" where
  "shard_text doc_lines key members = prettify (doc_lines key (sort_key url members))"

definition shard_files :: "(string \<Rightarrow> 'a imageset_scheme list \<Rightarrow> string list) \<Rightarrow> 'a imageset_scheme list \<Rightarrow> (string \<rightharpoonup> string list)" where
  "shard_files doc_lines imgsets =
     map_of (map (\<lambda>key. (key @ ''.xml'',
                    fst (shard_text doc_lines key (filter (\<lambda>s. imageset_key s = key) imgsets))))
              (remdups (map imageset_key imgsets)))"



text \<open>A shard is written without error when its file can be opened and \<^verbatim>\<open>prettify\<close>
  does not fail on it; \<open>shard_entry\<close> is the file it leaves.\<close>

definition shard_ok :: "(io_call \<Rightarrow> bool) \<Rightarrow> (string \<Rightarrow> 'a imageset_scheme list \<Rightarrow> string list) \<Rightarrow> string \<times> 'a imageset_scheme list \<Rightarrow> bool" where
  "shard_ok env doc_lines g \<longleftrightarrow>
     \<not> env (OpenFile (fst g @ ''.xml'')) \<and> snd (shard_text doc_lines (fst g) (snd g)) = None"

definition shard_entry :: "(string \<Rightarrow> 'a imageset_scheme list \<Rightarrow> string list) \<Rightarrow> string \<times> 'a imageset_scheme list \<Rightarrow> string \<times> string list" where
  "shard_entry doc_lines g = (fst g @ ''.xml'', fst (shard_text doc_lines (fst g) (snd g)))"


text \<open>\<open>g\<close> groups the list \<open>xs\<close> by \<open>f\<close>: one entry per key, holding the items
  with this key in their order in \<open>xs\<close>.\<close>

definition groups_of :: "('a \<Rightarrow> string) \<Rightarrow> (string \<times> 'a list) list \<Rightarrow> 'a list \<Rightarrow> bool" where
  "groups_of f g xs \<longleftrightarrow>
     distinct (map fst g) \<and>
     (\<forall>k. map_of g k = (if k \<in> f ` set xs then Some (filter (\<lambda>x. f x = k) xs) else None))"


text \<open>Concrete inputs for the evaluated examples: a serialisation of a folder to lines
  (in place of the external library), two environments, three imagesets of which two share
  a URL, the same store filled in two orders, and a file system before and after a
  rewrite.\<close>

definition example_doc_lines :: "string \<Rightarrow> imageset list \<Rightarrow> string list" where
  "example_doc_lines key children =
     [''<Folder Name=\"'' @ key @ ''\">''] @
     map (\<lambda>s. ''  <ImageSet Url=\"'' @ url s @ ''\" />'') children @
     [''</Folder>'']"

definition no_faults :: "io_call \<Rightarrow> bool" where
  "no_faults c = False"

definition second_rename_fails :: "io_call \<Rightarrow> bool" where
  "second_rename_fails c = (c = RenameNew)"

definition rmtree_fails :: "io_call \<Rightarrow> bool" where
  "rmtree_fails c = (c = Rmtree)"

definition imgset_a :: imageset where
  "imgset_a = \<lparr>url = ''http://a'', data_set_type = ''Sky'', reference_frame = None,
     band_pass = Some ''Visible''\<rparr>"

definition imgset_b :: imageset where
  "imgset_b = \<lparr>url = ''http://b'', data_set_type = ''Sky'', reference_frame = Some ''Sky'',
     band_pass = Some ''Visible''\<rparr>"

definition imgset_a2 :: imageset where
  "imgset_a2 = \<lparr>url = ''http://a'', data_set_type = ''Planet'', reference_frame = Some ''Mars'',
     band_pass = None\<rparr>"

definition db_ab :: "unit idb" where
  "db_ab = \<lparr>by_url = [(''http://a'', imgset_a), (''http://b'', imgset_b)], stderr = []\<rparr>"

definition db_ba :: "unit idb" where
  "db_ba = \<lparr>by_url = [(''http://b'', imgset_b), (''http://a'', imgset_a)], stderr = []\<rparr>"

definition old_catalog :: "string \<rightharpoonup> string list" where
  "old_catalog = [''sky.xml'' \<mapsto> [''<Folder>'']]"

definition fs_before :: "string list fs" where
  "fs_before = \<lparr>db_dir = Some old_catalog, new_dir = None, old_dir = None\<rparr>"

definition fs_after :: "string list fs" where
  "fs_after = \<lparr>db_dir = Some (shard_files example_doc_lines [imgset_a, imgset_b]),
     new_dir = None, old_dir = None\<rparr>"


section \<open>Specification of a tag line with attributes\<close>

text \<open>
  The text of a tag after its name, as the serializer expects it: attributes, each made of
  optional white space, a name of one or more word characters, \<^verbatim>\<open>="\<close>, a value
  without a double quote and \<^verbatim>\<open>"\<close>; then optional white space and the ending marker
  \<^verbatim>\<open>>\<close> or \<^verbatim>\<open>/>\<close>. An attribute is the triple of its white space, name and value.
\<close>

definition wf_attr :: "string \<times> string \<times> string \<Rightarrow> bool" where
  "wf_attr a \<longleftrightarrow>
     list_all is_space (fst a) \<and> fst (snd a) \<noteq> [] \<and> list_all is_word (fst (snd a)) \<and>
     list_all (\<lambda>c. c \<noteq> CHR 0x22) (snd (snd a))"

definition closing :: "bool \<Rightarrow> string" where
  "closing self_ending = (if self_ending then ''/>'' else ''>'')"

fun attrs_text :: "(string \<times> string \<times> string) list \<Rightarrow> string \<Rightarrow> bool \<Rightarrow> string" where
  "attrs_text [] ws self_ending = ws @ closing self_ending"
| "attrs_text (a # as) ws self_ending =
     fst a @ fst (snd a) @ ''=\"'' @ snd (snd a) @ ''\"'' @ attrs_text as ws self_ending"


section \<open>Specification of the order within a place shard\<close>

text \<open>
  The sort key in the words of the specification: the first URL that is present among
  \<^verbatim>\<open>foreground_image_set_url\<close>, \<^verbatim>\<open>image_set_url\<close> and
  \<^verbatim>\<open>background_image_set_url\<close>, as one string; then the pair
  \<^verbatim>\<open>(dec_deg, ra_hr)\<close> if \<^verbatim>\<open>dec_deg\<close> is present; then the pair
  \<^verbatim>\<open>(latitude, longitude)\<close> if \<^verbatim>\<open>latitude\<close> is present; then \<^verbatim>\<open>name\<close>.
  \<open>claimed_sortkey\<close> is written from these words, not from the source; it is compared
  with \<open>sortkey\<close>, which is.
\<close>

definition first_url_part :: "info \<Rightarrow> pyval list" where
  "first_url_part i =
     (if dict_get i ''foreground_image_set_url'' \<noteq> PNone
      then [dict_get i ''foreground_image_set_url'']
      else if dict_get i ''image_set_url'' \<noteq> PNone then [dict_get i ''image_set_url'']
      else if dict_get i ''background_image_set_url'' \<noteq> PNone
      then [dict_get i ''background_image_set_url'']
      else [])"

definition claimed_sortkey :: "info \<Rightarrow> error + pyval list" where
  "claimed_sortkey i =
     bind_err (pair_part i ''dec_deg'' ''ra_hr'') (\<lambda>k4.
     bind_err (pair_part i ''latitude'' ''longitude'') (\<lambda>k5.
     bind_err (dict_item i ''name'') (\<lambda>n.
     Inr (first_url_part i @ k4 @ k5 @ [n]))))"

text \<open>
  The key of the amended statement, again a specification and not a translation of the
  source: every URL that is present, in the order foreground, image, background, each as
  one string; then the two pairs and the name as in \<open>sortkey\<close>. It differs from
  \<open>claimed_sortkey\<close> in keeping all the URLs, and from \<open>sortkey\<close> in keeping each URL
  whole where \<^verbatim>\<open>k += u\<close> puts its characters into the key one by one.
\<close>

definition whole_url_part :: "info \<Rightarrow> string \<Rightarrow> pyval list" where
  "whole_url_part i f = (let u = dict_get i f in if u \<noteq> PNone then [u] else [])"

definition amended_sortkey :: "info \<Rightarrow> error + pyval list" where
  "amended_sortkey i =
     bind_err (pair_part i ''dec_deg'' ''ra_hr'') (\<lambda>k4.
     bind_err (pair_part i ''latitude'' ''longitude'') (\<lambda>k5.
     bind_err (dict_item i ''name'') (\<lambda>n.
     Inr (whole_url_part i ''foreground_image_set_url'' @ whole_url_part i ''image_set_url'' @
          whole_url_part i ''background_image_set_url'' @ k4 @ k5 @ [n]))))"

text \<open>
  Two records are aligned on a URL field when both lack it, or both hold a string there and
  neither string is a proper prefix of the other. On aligned records the characters of the
  URLs compare as the URLs do. When one URL is a proper prefix of the other, the characters
  left over are compared with whatever follows the shorter URL in the other key, another
  URL's first character, a number or the name.
\<close>

definition aligned :: "info \<Rightarrow> info \<Rightarrow> string \<Rightarrow> bool" where
  "aligned a b f \<longleftrightarrow>
     (dict_get a f = PNone \<and> dict_get b f = PNone) \<or>
     (\<exists>s t. dict_get a f = PStr s \<and> dict_get b f = PStr t \<and>
        \<not> strict_prefix s t \<and> \<not> strict_prefix t s)"

text \<open>Two records that agree on every field of the key before the name.\<close>

definition same_but_name :: "info \<Rightarrow> info \<Rightarrow> bool" where
  "same_but_name a b \<longleftrightarrow>
     list_all (\<lambda>f. a f = b f)
       [''foreground_image_set_url'', ''image_set_url'', ''background_image_set_url'',
        ''dec_deg'', ''ra_hr'', ''latitude'', ''longitude'']"

text \<open>A sorted list of keyed items has no inversion: no later key is smaller than an
  earlier one.\<close>

definition no_inversion :: "pyval list \<times> 'a \<Rightarrow> pyval list \<times> 'a \<Rightarrow> bool" where
  "no_inversion p q \<longleftrightarrow> tuple_lt (fst q) (fst p) \<noteq> Inr True"

text \<open>
  A record lacks a partner when it has \<^verbatim>\<open>dec_deg\<close> and no \<^verbatim>\<open>ra_hr\<close>, or
  \<^verbatim>\<open>latitude\<close> and no \<^verbatim>\<open>longitude\<close>. Its URL fields are well typed when each is
  missing, \<^verbatim>\<open>None\<close> or a string, as \<^verbatim>\<open>ingest_place\<close> leaves them.
\<close>

definition lacks_partner :: "info \<Rightarrow> bool" where
  "lacks_partner i \<longleftrightarrow>
     (dict_get i ''dec_deg'' \<noteq> PNone \<and> i ''ra_hr'' = None) \<or>
     (dict_get i ''latitude'' \<noteq> PNone \<and> i ''longitude'' = None)"

definition url_ok :: "info \<Rightarrow> string \<Rightarrow> bool" where
  "url_ok i f \<longleftrightarrow> dict_get i f = PNone \<or> (\<exists>s. dict_get i f = PStr s)"

definition urls_ok :: "info \<Rightarrow> bool" where
  "urls_ok i \<longleftrightarrow> url_ok i ''foreground_image_set_url'' \<and> url_ok i ''image_set_url'' \<and>
     url_ok i ''background_image_set_url''"

text \<open>
  The file of a shard, \<^verbatim>\<open>key + ".yml"\<close>. A shard is written when its records can be
  sorted and its file can be opened and written. The keys of the held records are plain when
  none of them has a path separator, so that every shard file is an entry of the
  temporary directory.
\<close>

definition shard_file :: "string \<times> info list \<Rightarrow> string" where
  "shard_file p = fst p @ ''.yml''"

definition shard_written :: "(io_call \<Rightarrow> bool) \<Rightarrow> string \<times> info list \<Rightarrow> bool" where
  "shard_written env p \<longleftrightarrow>
     \<not> env (OpenFile (fst p @ ''.yml'')) \<and>
     (case sorted_by_key sortkey (snd p) of Inr l \<Rightarrow> True | Inl e \<Rightarrow> False)"

definition plain_keys :: "info list \<Rightarrow> bool" where
  "plain_keys infos \<longleftrightarrow>
     list_all (\<lambda>i. case place_key i of Inr k \<Rightarrow> plain_name k | Inl e \<Rightarrow> True) infos"

subsection \<open>Example records\<close>

text \<open>
  \<open>place_p\<close> and \<open>place_q\<close> have the same foreground URL and different image URLs;
  \<open>place_r\<close> and \<open>place_s\<close> differ in their names only; \<open>place_no_ra\<close> has
  \<^verbatim>\<open>dec_deg\<close> and no \<^verbatim>\<open>ra_hr\<close>. \<open>place_fs\<close> is a file system with an empty
  catalogue directory and nothing at the two other paths.
\<close>

definition place_p :: info where
  "place_p = [''data_set_type'' \<mapsto> PStr ''Sky'', ''name'' \<mapsto> PStr ''a'',
     ''foreground_image_set_url'' \<mapsto> PStr ''x'', ''image_set_url'' \<mapsto> PStr ''b'']"

definition place_q :: info where
  "place_q = [''data_set_type'' \<mapsto> PStr ''Sky'', ''name'' \<mapsto> PStr ''b'',
     ''foreground_image_set_url'' \<mapsto> PStr ''x'', ''image_set_url'' \<mapsto> PStr ''a'']"

definition place_r :: info where
  "place_r = [''data_set_type'' \<mapsto> PStr ''Sky'', ''name'' \<mapsto> PStr ''b'',
     ''foreground_image_set_url'' \<mapsto> PStr ''x'']"

definition place_s :: info where
  "place_s = [''data_set_type'' \<mapsto> PStr ''Sky'', ''name'' \<mapsto> PStr ''a'',
     ''foreground_image_set_url'' \<mapsto> PStr ''x'']"

definition place_earth :: info where
  "place_earth = [''data_set_type'' \<mapsto> PStr ''Earth'', ''name'' \<mapsto> PStr ''a'']"

definition place_no_ra :: info where
  "place_no_ra = [''data_set_type'' \<mapsto> PStr ''Sky'', ''name'' \<mapsto> PStr ''b'',
     ''dec_deg'' \<mapsto> PNum 10]"

definition place_fs :: "info list fs" where
  "place_fs = \<lparr>db_dir = Some Map.empty, new_dir = None, old_dir = None\<rparr>"

section \<open>Properties\<close>

subsection \<open>Evaluation and formatting lemmas\<close>

lemma replicate_two: "replicate 2 x = [x, x]"
  by (simp add: numeral_2_eq_2)

lemma replicate_three: "replicate 3 x = [x, x, x]"
  by (simp add: numeral_3_eq_3)

lemmas str_eval = lower_def lower_char_def upper_letters_def lower_letters_def format_0d_def zero_pad_def digits10.simps digit_char_def
  replicate_two replicate_three

lemmas place_key_eval = place_key_def ra_part_def lon_part_def dict_get_def dict_item_def
  bind_err_def math_floor_def

lemma floor_bin: "\<lfloor>x::real\<rfloor> div 10 * 10 = \<lfloor>x / 10\<rfloor> * 10"
  using floor_divide_real_eq_div[of 10 x] by simp

lemma two_digits:
  assumes "n < 100"
  shows "zero_pad 2 (digits10 n) = [digit_char (n div 10), digit_char (n mod 10)]"
proof (cases "n < 10")
  case True
  then show ?thesis by (simp add: zero_pad_def digits10.simps[of n] digit_char_def)
next
  case False
  with assms have "n div 10 < 10" by simp
  with False show ?thesis
    by (simp add: zero_pad_def digits10.simps[of n] digits10.simps[of "n div 10"])
qed

lemma format_two_digits:
  assumes "0 \<le> r" and "r < 100"
  shows "format_0d 2 r = [digit_char (nat r div 10), digit_char (nat r mod 10)]"
  using assms by (simp add: format_0d_def two_digits)


lemma digits10_small: "n < 10 \<Longrightarrow> digits10 n = [digit_char n]"
  by (simp add: digits10.simps[of n])

lemma digits10_two: "10 \<le> n \<Longrightarrow> n < 100 \<Longrightarrow> digits10 n = [digit_char (n div 10), digit_char (n mod 10)]"
  by (simp add: digits10.simps[of n] digits10_small)

lemma digits10_three:
  assumes "100 \<le> n" and "n < 1000"
  shows "digits10 n = [digit_char (n div 100), digit_char (n div 10 mod 10), digit_char (n mod 10)]"
proof -
  have "10 \<le> n div 10" "n div 10 < 100" using assms by simp_all
  then have "digits10 (n div 10) = [digit_char (n div 10 div 10), digit_char (n div 10 mod 10)]"
    by (rule digits10_two)
  moreover have "n div 10 div 10 = n div 100" by (simp add: div_mult2_eq)
  ultimately show ?thesis using assms by (simp add: digits10.simps[of n])
qed

lemma digit_char_0: "digit_char 0 = CHR ''0''" by (simp add: digit_char_def)

lemma pad3:
  assumes "n < 1000"
  shows "zero_pad 3 (digits10 n) = [digit_char (n div 100), digit_char (n div 10 mod 10), digit_char (n mod 10)]"
proof -
  consider "n < 10" | "10 \<le> n" "n < 100" | "100 \<le> n" using assms by linarith
  then show ?thesis
  proof cases
    case 1
    then have "n div 100 = 0" "n div 10 = 0" "n mod 10 = n" by simp_all
    moreover have "zero_pad 3 [digit_char n] = [CHR ''0'', CHR ''0'', digit_char n]"
      by (simp add: zero_pad_def replicate_two)
    ultimately show ?thesis using 1 by (simp add: digits10_small digit_char_0)
  next
    case 2
    then have "n div 100 = 0" "n div 10 mod 10 = n div 10" by simp_all
    moreover have "zero_pad 3 [a, b] = [CHR ''0'', a, b]" for a b
      by (simp add: zero_pad_def)
    ultimately show ?thesis using 2 by (simp add: digits10_two digit_char_0)
  next
    case 3 then show ?thesis using assms by (simp add: digits10_three zero_pad_def)
  qed
qed

lemma pad2:
  assumes "n < 100"
  shows "zero_pad 2 (digits10 n) = [digit_char (n div 10), digit_char (n mod 10)]"
proof (cases "n < 10")
  case True
  then have "n div 10 = 0" "n mod 10 = n" by simp_all
  moreover have "zero_pad 2 [a] = [CHR ''0'', a]" for a
    by (simp add: zero_pad_def)
  ultimately show ?thesis using True by (simp add: digits10_small digit_char_0)
next
  case False then show ?thesis using assms by (simp add: digits10_two zero_pad_def)
qed

lemma pad2_three:
  assumes "100 \<le> n" "n < 1000"
  shows "zero_pad 2 (digits10 n) = [digit_char (n div 100), digit_char (n div 10 mod 10), digit_char (n mod 10)]"
  using assms by (simp add: digits10_three zero_pad_def)

lemma floor_bin_le: "of_int (\<lfloor>lon / 10\<rfloor> * 10) \<le> (lon::real)"
proof -
  have "of_int \<lfloor>lon / 10\<rfloor> \<le> lon / 10" by (rule of_int_floor_le)
  then have "of_int \<lfloor>lon / 10\<rfloor> * 10 \<le> lon" by linarith
  then show ?thesis by simp
qed

lemma floor_bin_gt: "lon < of_int (\<lfloor>lon / 10\<rfloor> * 10) + (10::real)"
proof -
  have "lon / 10 < of_int \<lfloor>lon / 10\<rfloor> + 1" by linarith
  then have "lon < of_int \<lfloor>lon / 10\<rfloor> * 10 + 10" by linarith
  then show ?thesis by simp
qed

lemma format_3_nonneg:
  assumes "0 \<le> b" and "b < 1000"
  shows "format_0d 3 b =
    [digit_char (nat b div 100), digit_char (nat b div 10 mod 10), digit_char (nat b mod 10)]"
proof -
  have "nat b < 1000" using assms by simp
  then show ?thesis using assms by (simp add: format_0d_def pad3)
qed

lemma format_3_neg:
  assumes "- 100 < b" and "b < 0"
  shows "format_0d 3 b = [CHR ''-'', digit_char (nat (- b) div 10), digit_char (nat (- b) mod 10)]"
proof -
  have "nat (- b) < 100" using assms by simp
  moreover have "(3::nat) - 1 = 2" by simp
  ultimately show ?thesis using assms by (simp add: format_0d_def pad2)
qed


subsection \<open>Shard keys of the place database\<close>

text \<open>
  C6. For a record whose \<^verbatim>\<open>ra_hr\<close> is a number \<open>ra\<close>, the RA component of the shard
  key is \<^verbatim>\<open>ra\<close> followed by the two decimal digits of \<open>r = \<lfloor>ra\<rfloor> mod 24\<close>, which lies
  in \<open>0..23\<close>; the shard key is the lowercased join with \<^verbatim>\<open>_\<close> of the data-set type,
  this component and the longitude component, if any. The witness evaluates the key for
  \<^verbatim>\<open>ra_hr = 23.9\<close> (bin 23) and \<^verbatim>\<open>ra_hr = 24.5\<close> (bin 0).
\<close>

theorem ra_component:
  assumes ra: "i ''ra_hr'' = Some (PNum ra)"
    and dst: "i ''data_set_type'' = Some (PStr d)"
  defines "r \<equiv> nat (\<lfloor>ra\<rfloor> mod 24)"
  defines "c \<equiv> ''ra'' @ [digit_char (r div 10), digit_char (r mod 10)]"
  shows "r < 24 \<and> ra_part i = Inr [PStr c] \<and>
         (i ''longitude'' = None \<longrightarrow> place_key i = Inr (lower (join ''_'' [d, c]))) \<and>
         (\<forall>lon. i ''longitude'' = Some (PNum lon) \<longrightarrow>
            (\<exists>l. lon_part i = Inr [PStr l] \<and> place_key i = Inr (lower (join ''_'' [d, c, l]))))"
proof -
  have m: "0 \<le> \<lfloor>ra\<rfloor> mod 24" "\<lfloor>ra\<rfloor> mod 24 < 24" by simp_all
  then have r24: "r < 24" unfolding r_def by linarith
  have "format_0d 2 (\<lfloor>ra\<rfloor> mod 24) = [digit_char (r div 10), digit_char (r mod 10)]"
    unfolding r_def using m by (intro format_two_digits) simp_all
  then have part: "ra_part i = Inr [PStr c]"
    using ra by (simp add: ra_part_def dict_get_def math_floor_def bind_err_def c_def)
  have k1: "i ''longitude'' = None \<Longrightarrow> place_key i = Inr (lower (join ''_'' [d, c]))"
    using part dst by (simp add: place_key_def lon_part_def dict_get_def dict_item_def bind_err_def)
  have k2: "\<exists>l. lon_part i = Inr [PStr l] \<and> place_key i = Inr (lower (join ''_'' [d, c, l]))"
    if "i ''longitude'' = Some (PNum lon)" for lon
    using part dst that
    by (simp add: place_key_def lon_part_def dict_get_def dict_item_def bind_err_def math_floor_def)
  from r24 part k1 k2 show ?thesis by blast
qed

theorem ra_component_witness:
  "place_key [''data_set_type'' \<mapsto> PStr ''Sky'', ''ra_hr'' \<mapsto> PNum (239 / 10)] = Inr ''sky_ra23'' \<and>
   place_key [''data_set_type'' \<mapsto> PStr ''Sky'', ''ra_hr'' \<mapsto> PNum (49 / 2)] = Inr ''sky_ra00''"
  using ra_component[of "[''data_set_type'' \<mapsto> PStr ''Sky'', ''ra_hr'' \<mapsto> PNum (239 / 10)]" "239 / 10" "''Sky''"]
    ra_component[of "[''data_set_type'' \<mapsto> PStr ''Sky'', ''ra_hr'' \<mapsto> PNum (49 / 2)]" "49 / 2" "''Sky''"]
  by (simp add: str_eval)

text \<open>
  C5. For a record whose \<^verbatim>\<open>longitude\<close> is a number \<open>lon\<close>, the longitude component of
  the shard key is \<^verbatim>\<open>lon\<close> followed by \<open>b = \<lfloor>lon / 10\<rfloor> * 10\<close> in the format
  \<^verbatim>\<open>03d\<close>. \<open>b\<close> is the multiple of ten with \<open>b \<le> lon < b + 10\<close>, so a negative longitude
  is rounded towards minus infinity. The format gives three digits for \<open>0 \<le> b < 1000\<close> and
  the sign followed by two digits for \<open>- 100 < b < 0\<close>. The witness evaluates the key for
  \<^verbatim>\<open>longitude = -5\<close>: the bin is \<open>- 10\<close> and the component \<^verbatim>\<open>lon-10\<close>.
\<close>

theorem lon_component:
  assumes lon: "i ''longitude'' = Some (PNum lon)"
    and dst: "i ''data_set_type'' = Some (PStr d)"
  defines "b \<equiv> \<lfloor>lon / 10\<rfloor> * 10"
  defines "c \<equiv> ''lon'' @ format_0d 3 b"
  shows "lon_part i = Inr [PStr c] \<and>
         of_int b \<le> lon \<and> lon < of_int b + 10 \<and>
         (0 \<le> b \<and> b < 1000 \<longrightarrow> format_0d 3 b =
            [digit_char (nat b div 100), digit_char (nat b div 10 mod 10), digit_char (nat b mod 10)]) \<and>
         (- 100 < b \<and> b < 0 \<longrightarrow> format_0d 3 b =
            [CHR ''-'', digit_char (nat (- b) div 10), digit_char (nat (- b) mod 10)]) \<and>
         (i ''ra_hr'' = None \<longrightarrow> place_key i = Inr (lower (join ''_'' [d, c]))) \<and>
         (\<forall>ra. i ''ra_hr'' = Some (PNum ra) \<longrightarrow>
            (\<exists>r. ra_part i = Inr [PStr r] \<and> place_key i = Inr (lower (join ''_'' [d, r, c]))))"
proof -
  have part: "lon_part i = Inr [PStr c]"
    using lon by (simp add: lon_part_def dict_get_def math_floor_def bind_err_def c_def b_def floor_bin)
  have lo: "of_int b \<le> lon" unfolding b_def by (rule floor_bin_le)
  have hi: "lon < of_int b + 10" unfolding b_def by (rule floor_bin_gt)
  have k1: "place_key i = Inr (lower (join ''_'' [d, c]))" if "i ''ra_hr'' = None"
    using part dst that by (simp add: place_key_def ra_part_def dict_get_def dict_item_def bind_err_def)
  have k2: "\<exists>r. ra_part i = Inr [PStr r] \<and> place_key i = Inr (lower (join ''_'' [d, r, c]))"
    if "i ''ra_hr'' = Some (PNum ra)" for ra
    using part dst that
    by (simp add: place_key_def ra_part_def dict_get_def dict_item_def bind_err_def math_floor_def)
  show ?thesis
  proof (intro conjI impI allI)
    show "lon_part i = Inr [PStr c]" by (rule part)
    show "of_int b \<le> lon" by (rule lo)
    show "lon < of_int b + 10" by (rule hi)
    show "format_0d 3 b =
        [digit_char (nat b div 100), digit_char (nat b div 10 mod 10), digit_char (nat b mod 10)]"
      if "0 \<le> b \<and> b < 1000" using that by (simp add: format_3_nonneg)
    show "format_0d 3 b = [CHR ''-'', digit_char (nat (- b) div 10), digit_char (nat (- b) mod 10)]"
      if "- 100 < b \<and> b < 0" using that by (simp add: format_3_neg)
    show "place_key i = Inr (lower (join ''_'' [d, c]))" if "i ''ra_hr'' = None"
      using that by (rule k1)
    show "\<exists>r. ra_part i = Inr [PStr r] \<and> place_key i = Inr (lower (join ''_'' [d, r, c]))"
      if "i ''ra_hr'' = Some (PNum ra)" for ra using that by (rule k2)
  qed
qed

theorem lon_component_witness:
  "place_key [''data_set_type'' \<mapsto> PStr ''Earth'', ''longitude'' \<mapsto> PNum (- 5)] = Inr ''earth_lon-10'' \<and>
   lon_part [''data_set_type'' \<mapsto> PStr ''Earth'', ''longitude'' \<mapsto> PNum (- 5)] = Inr [PStr ''lon-10'']"
  using lon_component[of "[''data_set_type'' \<mapsto> PStr ''Earth'', ''longitude'' \<mapsto> PNum (- 5)]" "- 5" "''Earth''"]
  by (simp add: str_eval)

subsection \<open>The shard key of an imageset\<close>

text \<open>
  C4. The shard key of an imageset is the lowercased join with \<^verbatim>\<open>_\<close> of the data-set
  type, the reference frame when present and not \<^verbatim>\<open>Sky\<close>, and the band pass when
  present. A reference frame \<^verbatim>\<open>Sky\<close> gives the key of a missing frame, and data-set
  type \<^verbatim>\<open>Sky\<close>, no frame and band pass \<^verbatim>\<open>Visible\<close> give \<^verbatim>\<open>sky_visible\<close>.
\<close>

theorem imageset_key_components:
  "imageset_key imgset = lower (join ''_'' (key_components imgset)) \<and>
   imageset_key (imgset\<lparr>reference_frame := Some ''Sky''\<rparr>) =
     imageset_key (imgset\<lparr>reference_frame := None\<rparr>) \<and>
   imageset_key (imgset\<lparr>data_set_type := ''Sky'', reference_frame := None,
     band_pass := Some ''Visible''\<rparr>) = ''sky_visible''"
proof (intro conjI)
  show "imageset_key imgset = lower (join ''_'' (key_components imgset))"
    by (simp add: imageset_key_def key_components_def split: option.splits)
  show "imageset_key (imgset\<lparr>reference_frame := Some ''Sky''\<rparr>) =
     imageset_key (imgset\<lparr>reference_frame := None\<rparr>)"
    by (simp add: imageset_key_def)
  show "imageset_key (imgset\<lparr>data_set_type := ''Sky'', reference_frame := None,
     band_pass := Some ''Visible''\<rparr>) = ''sky_visible''"
    by (simp add: imageset_key_def lower_def lower_char_def upper_letters_def lower_letters_def)
qed


subsection \<open>Adding imagesets\<close>

lemma add_imageset_duplicate:
  assumes "url imgset \<in> fst ` set (by_url db)"
  shows "add_imageset imgset db =
    db\<lparr>stderr := stderr db @ [''warning: dropping duplicated imageset `'' @ url imgset @ ''`'']\<rparr>"
  using assms by (simp add: add_imageset_def warn_def)

lemma add_imageset_fresh:
  assumes "url imgset \<notin> fst ` set (by_url db)"
  shows "add_imageset imgset db = db\<lparr>by_url := by_url db @ [(url imgset, imgset)]\<rparr>"
  using assms by (simp add: add_imageset_def)

lemma add_all_Cons: "add_all (x # xs) db = add_all xs (add_imageset x db)"
  by (simp add: add_all_def)

lemma add_all_Nil: "add_all [] db = db"
  by (simp add: add_all_def)

lemma add_all_invariant:
  assumes "distinct (map fst (by_url db))"
  shows "distinct (map fst (by_url (add_all xs db))) \<and>
         (\<forall>u. map_of (by_url (add_all xs db)) u =
            (case map_of (by_url db) u of Some s \<Rightarrow> Some s | None \<Rightarrow> find (\<lambda>s. url s = u) xs)) \<and>
         length (by_url (add_all xs db)) + length (stderr (add_all xs db)) =
           length (by_url db) + length (stderr db) + length xs"
  using assms
proof (induction xs arbitrary: db)
  case Nil
  then show ?case by (simp add: add_all_Nil split: option.splits)
next
  case (Cons x xs)
  show ?case
  proof (cases "url x \<in> fst ` set (by_url db)")
    case True
    then obtain s where s: "map_of (by_url db) (url x) = Some s"
      by (metis map_of_eq_None_iff not_Some_eq)
    have db': "add_imageset x db = db\<lparr>stderr := stderr db @ [''warning: dropping duplicated imageset `'' @ url x @ ''`'']\<rparr>"
      using True by (rule add_imageset_duplicate)
    have "distinct (map fst (by_url (add_imageset x db)))" using Cons.prems db' by simp
    from Cons.IH[OF this] show ?thesis
      using s by (auto simp: add_all_Cons db' split: option.splits)
  next
    case False
    then have n: "map_of (by_url db) (url x) = None"
      by (simp add: map_of_eq_None_iff)
    have db': "add_imageset x db = db\<lparr>by_url := by_url db @ [(url x, x)]\<rparr>"
      using False by (rule add_imageset_fresh)
    have d: "distinct (map fst (by_url (add_imageset x db)))" using Cons.prems db' False by simp
    have m: "map_of (by_url (add_imageset x db)) u =
        (case map_of (by_url db) u of Some s \<Rightarrow> Some s | None \<Rightarrow> if url x = u then Some x else None)" for u
      by (simp add: db' map_add_def split: option.splits)
    from Cons.IH[OF d] show ?thesis
      using n by (auto simp: add_all_Cons m db' split: option.splits)
  qed
qed


text \<open>
  C3. After any sequence of \<^verbatim>\<open>add_imageset\<close> calls on a new database, no URL is held
  twice, the imageset held for a URL is the first one of the sequence with this URL, and
  every call either stored its imageset or printed one warning. Adding an imageset whose
  URL is held changes nothing but \<^verbatim>\<open>stderr\<close>, which gets the warning; no error is
  raised, as \<^verbatim>\<open>add_imageset\<close> has no error result.
\<close>

theorem add_imageset_first_wins:
  fixes xs :: "'a imageset_scheme list"
  defines "db \<equiv> add_all xs new_idb"
  shows "distinct (map fst (by_url db)) \<and>
         (\<forall>u. map_of (by_url db) u = find (\<lambda>s. url s = u) xs) \<and>
         length (by_url db) + length (stderr db) = length xs \<and>
         (\<forall>(d :: 'a idb) s. url s \<in> fst ` set (by_url d) \<longrightarrow>
            add_imageset s d =
              d\<lparr>stderr := stderr d @ [''warning: dropping duplicated imageset `'' @ url s @ ''`'']\<rparr>)"
proof -
  have "distinct (map fst (by_url (new_idb :: 'a idb)))" by (simp add: new_idb_def)
  from add_all_invariant[OF this, of xs]
  have "distinct (map fst (by_url db))"
    and "\<forall>u. map_of (by_url db) u = find (\<lambda>s. url s = u) xs"
    and "length (by_url db) + length (stderr db) = length xs"
    unfolding db_def by (simp_all add: new_idb_def)
  moreover have "\<forall>(d :: 'a idb) s. url s \<in> fst ` set (by_url d) \<longrightarrow>
      add_imageset s d =
        d\<lparr>stderr := stderr d @ [''warning: dropping duplicated imageset `'' @ url s @ ''`'']\<rparr>"
    using add_imageset_duplicate by blast
  ultimately show ?thesis by blast
qed

theorem add_imageset_first_wins_witness:
  "add_all [imgset_a, imgset_a2] new_idb =
     \<lparr>by_url = [(''http://a'', imgset_a)],
      stderr = [''warning: dropping duplicated imageset `http://a`'']\<rparr> \<and>
   map_of (by_url (add_all [imgset_a, imgset_a2] new_idb)) ''http://a'' = Some imgset_a \<and>
   imgset_a \<noteq> imgset_a2"
proof -
  have e: "add_all [imgset_a, imgset_a2] new_idb =
     \<lparr>by_url = [(''http://a'', imgset_a)],
      stderr = [''warning: dropping duplicated imageset `http://a`'']\<rparr>"
    by (simp add: add_all_def add_imageset_def warn_def new_idb_def imgset_a_def imgset_a2_def)
  have "map_of (by_url (add_all [imgset_a, imgset_a2] new_idb)) ''http://a'' =
      find (\<lambda>s. url s = ''http://a'') [imgset_a, imgset_a2]"
    using add_imageset_first_wins[of "[imgset_a, imgset_a2]"] by blast
  then have "map_of (by_url (add_all [imgset_a, imgset_a2] new_idb)) ''http://a'' = Some imgset_a"
    by (simp add: imgset_a_def)
  moreover have "imgset_a \<noteq> imgset_a2" by (simp add: imgset_a_def imgset_a2_def)
  ultimately show ?thesis using e by blast
qed


subsection \<open>Grouping by key\<close>

lemma group_add_keys: "fst ` set (group_add k x g) = insert k (fst ` set g)"
proof (induction g)
  case Nil then show ?case by simp
next
  case (Cons a g)
  obtain k' xs where a: "a = (k', xs)" by (cases a)
  show ?case using Cons.IH by (cases "k = k'") (auto simp: a)
qed

lemma group_add_distinct: "distinct (map fst g) \<Longrightarrow> distinct (map fst (group_add k x g))"
proof (induction g)
  case Nil then show ?case by simp
next
  case (Cons a g)
  obtain k' xs where a: "a = (k', xs)" by (cases a)
  show ?case
  proof (cases "k = k'")
    case True then show ?thesis using Cons.prems a by simp
  next
    case False
    have "k' \<notin> fst ` set (group_add k x g)"
      using Cons.prems a False by (simp add: group_add_keys)
    then show ?thesis using Cons a False by simp
  qed
qed

lemma group_add_map_of:
  "map_of (group_add k x g) k' =
     (if k' = k then Some ((case map_of g k of None \<Rightarrow> [] | Some ys \<Rightarrow> ys) @ [x]) else map_of g k')"
  by (induction g) (auto split: if_splits)

lemma groups_of_Nil: "groups_of f [] []"
  by (simp add: groups_of_def)

lemma groups_of_add:
  assumes "groups_of f g xs"
  shows "groups_of f (group_add (f x) x g) (xs @ [x])"
proof -
  have d: "distinct (map fst (group_add (f x) x g))"
    using assms by (simp add: groups_of_def group_add_distinct)
  have m: "map_of (group_add (f x) x g) k =
      (if k \<in> f ` set (xs @ [x]) then Some (filter (\<lambda>y. f y = k) (xs @ [x])) else None)" for k
  proof (cases "k = f x")
    case True
    have "(case map_of g (f x) of None \<Rightarrow> [] | Some ys \<Rightarrow> ys) = filter (\<lambda>y. f y = f x) xs"
    proof (cases "f x \<in> f ` set xs")
      case True then show ?thesis using assms by (simp add: groups_of_def)
    next
      case False
      then have "\<forall>y \<in> set xs. f y \<noteq> f x" by (metis imageI)
      then have "filter (\<lambda>y. f y = f x) xs = []" by (simp add: filter_empty_conv)
      then show ?thesis using assms False by (simp add: groups_of_def)
    qed
    then show ?thesis using True by (simp add: group_add_map_of)
  next
    case False
    then show ?thesis using assms by (auto simp: group_add_map_of groups_of_def)
  qed
  show ?thesis unfolding groups_of_def using d m by blast
qed

lemma groups_of_foldl:
  assumes "groups_of f g xs"
  shows "groups_of f (foldl (\<lambda>g x. group_add (f x) x g) g ys) (xs @ ys)"
  using assms
proof (induction ys arbitrary: g xs)
  case Nil then show ?case by simp
next
  case (Cons y ys)
  from Cons.IH[OF groups_of_add[OF Cons.prems, of y]] show ?case by simp
qed

lemma imageset_groups_of: "groups_of imageset_key (imageset_groups xs) xs"
  unfolding imageset_groups_def using groups_of_foldl[OF groups_of_Nil, of imageset_key xs] by simp

lemma groups_of_set:
  assumes "groups_of f g xs"
  shows "set g = (\<lambda>k. (k, filter (\<lambda>x. f x = k) xs)) ` (f ` set xs)"
proof -
  have d: "distinct (map fst g)" using assms by (simp add: groups_of_def)
  have "(k, ms) \<in> set g \<longleftrightarrow> map_of g k = Some ms" for k ms
    using d by simp
  then have "(k, ms) \<in> set g \<longleftrightarrow> k \<in> f ` set xs \<and> ms = filter (\<lambda>x. f x = k) xs" for k ms
    using assms by (auto simp: groups_of_def)
  then show ?thesis by (auto simp: image_iff)
qed


subsection \<open>Writing the shards and replacing the directory\<close>

lemma write_imageset_shards_ok:
  assumes "new_dir s = Some d" and "list_all (shard_ok env dl) g"
  shows "write_imageset_shards env dl g s =
    (None, s\<lparr>new_dir := Some (d ++ map_of (rev (map (shard_entry dl) g)))\<rparr>)"
  using assms
proof (induction g arbitrary: s d)
  case Nil
  then show ?case by simp
next
  case (Cons a g)
  obtain k ms where a: "a = (k, ms)" by (cases a)
  obtain printed err where p: "prettify (dl k (sort_key url ms)) = (printed, err)"
    by (cases "prettify (dl k (sort_key url ms))")
  have ok: "\<not> env (OpenFile (k @ ''.xml''))" "err = None"
    using Cons.prems(2) a p by (simp_all add: shard_ok_def shard_text_def)
  let ?s' = "s\<lparr>new_dir := Some (d(k @ ''.xml'' \<mapsto> printed))\<rparr>"
  have w: "write_new env (k @ ''.xml'') printed s = Inr ?s'"
    using Cons.prems(1) ok by (simp add: write_new_def)
  have step: "write_imageset_shards env dl (a # g) s = write_imageset_shards env dl g ?s'"
    using a p w ok by simp
  have n: "new_dir ?s' = Some (d(k @ ''.xml'' \<mapsto> printed))" by simp
  have l: "list_all (shard_ok env dl) g" using Cons.prems(2) by simp
  have "write_imageset_shards env dl g ?s' =
      (None, ?s'\<lparr>new_dir := Some (d(k @ ''.xml'' \<mapsto> printed) ++ map_of (rev (map (shard_entry dl) g)))\<rparr>)"
    by (rule Cons.IH[OF n l])
  moreover have "d(k @ ''.xml'' \<mapsto> printed) ++ map_of (rev (map (shard_entry dl) g)) =
      d ++ map_of (rev (map (shard_entry dl) (a # g)))"
    using a p by (simp add: shard_entry_def shard_text_def map_add_def fun_eq_iff split: option.splits)
  ultimately show ?case using step by simp
qed

lemma write_imageset_shards_fail:
  assumes "new_dir s \<noteq> None" and "\<not> list_all (shard_ok env dl) g"
  shows "\<exists>e t. write_imageset_shards env dl g s = (Some e, t) \<and>
    db_dir t = db_dir s \<and> old_dir t = old_dir s"
  using assms
proof (induction g arbitrary: s)
  case Nil
  then show ?case by simp
next
  case (Cons a g)
  obtain k ms where a: "a = (k, ms)" by (cases a)
  obtain printed err where p: "prettify (dl k (sort_key url ms)) = (printed, err)"
    by (cases "prettify (dl k (sort_key url ms))")
  obtain d where d: "new_dir s = Some d" using Cons.prems(1) by auto
  let ?s' = "s\<lparr>new_dir := Some (d(k @ ''.xml'' \<mapsto> printed))\<rparr>"
  show ?case
  proof (cases "env (OpenFile (k @ ''.xml''))")
    case True
    then show ?thesis using a p d by (simp add: write_new_def)
  next
    case False
    then have w: "write_new env (k @ ''.xml'') printed s = Inr ?s'"
      using d by (simp add: write_new_def)
    show ?thesis
    proof (cases err)
      case (Some e)
      then show ?thesis using a p w by simp
    next
      case None
      then have "shard_ok env dl a" using a p False by (simp add: shard_ok_def shard_text_def)
      then have "\<not> list_all (shard_ok env dl) g" using Cons.prems(2) by simp
      moreover have "new_dir ?s' \<noteq> None" by simp
      ultimately obtain e t where "write_imageset_shards env dl g ?s' = (Some e, t)"
        "db_dir t = db_dir ?s'" "old_dir t = old_dir ?s'"
        using Cons.IH by blast
      then show ?thesis using a p w None by simp
    qed
  qed
qed

lemma shard_entries_distinct:
  assumes "distinct (map fst g)"
  shows "distinct (map fst (map (shard_entry dl) g))"
proof -
  have "map fst (map (shard_entry dl) g) = map (\<lambda>k. k @ ''.xml'') (map fst g)"
    by (simp add: shard_entry_def)
  moreover have "inj_on (\<lambda>k::string. k @ ''.xml'') (set (map fst g))" by (simp add: inj_on_def)
  ultimately show ?thesis using assms by (simp add: distinct_map del: map_map)
qed

lemma shard_files_of_groups:
  "map_of (rev (map (shard_entry dl) (imageset_groups xs))) = shard_files dl xs"
proof -
  let ?g = "imageset_groups xs"
  let ?h = "\<lambda>key. (key @ ''.xml'', fst (shard_text dl key (filter (\<lambda>s. imageset_key s = key) xs)))"
  have g: "groups_of imageset_key ?g xs" by (rule imageset_groups_of)
  then have d: "distinct (map fst ?g)" by (simp add: groups_of_def)
  have d1: "distinct (map fst (rev (map (shard_entry dl) ?g)))"
    using shard_entries_distinct[OF d, of dl] by (simp add: rev_map[symmetric] del: map_map)
  have "map fst (map ?h (remdups (map imageset_key xs))) =
      map (\<lambda>k. k @ ''.xml'') (remdups (map imageset_key xs))" by simp
  moreover have "inj_on (\<lambda>k::string. k @ ''.xml'') (set (remdups (map imageset_key xs)))"
    by (simp add: inj_on_def)
  ultimately have d2: "distinct (map fst (map ?h (remdups (map imageset_key xs))))"
    by (simp add: distinct_map del: map_map)
  have "set (rev (map (shard_entry dl) ?g)) = shard_entry dl ` set ?g" by simp
  also have "\<dots> = shard_entry dl ` ((\<lambda>k. (k, filter (\<lambda>x. imageset_key x = k) xs)) ` (imageset_key ` set xs))"
    using groups_of_set[OF g] by simp
  also have "\<dots> = ?h ` (imageset_key ` set xs)"
    by (simp add: image_image shard_entry_def)
  also have "\<dots> = set (map ?h (remdups (map imageset_key xs)))" by simp
  finally have "set (rev (map (shard_entry dl) ?g)) = set (map ?h (remdups (map imageset_key xs)))" .
  with d1 d2 have "map_of (rev (map (shard_entry dl) ?g)) = map_of (map ?h (remdups (map imageset_key xs)))"
    using map_of_inject_set by blast
  then show ?thesis by (simp add: shard_files_def)
qed

lemma swap_dirs_ok:
  assumes "\<not> env RenameOld" "\<not> env RenameNew" "\<not> env Rmtree"
    and "db_dir s \<noteq> None" and "new_dir s \<noteq> None"
    and "old_dir s = None \<or> old_dir s = Some Map.empty"
  shows "swap_dirs env s = (None, s\<lparr>old_dir := None, db_dir := new_dir s, new_dir := None\<rparr>)"
  using assms by (auto simp: swap_dirs_def Let_def)

lemma swap_dirs_None:
  assumes "swap_dirs env s = (None, t)"
  shows "\<not> env RenameOld \<and> \<not> env RenameNew \<and> \<not> env Rmtree \<and> db_dir s \<noteq> None \<and>
    new_dir s \<noteq> None \<and> (old_dir s = None \<or> old_dir s = Some Map.empty) \<and>
    t = s\<lparr>old_dir := None, db_dir := new_dir s, new_dir := None\<rparr>"
  using assms by (auto simp: swap_dirs_def Let_def split: if_splits)

lemma imageset_rewrite_mkdir_fail:
  assumes "env Mkdir \<or> new_dir s \<noteq> None"
  shows "imageset_rewrite env dl db s = (Some OSError, s)"
  using assms by (auto simp: imageset_rewrite_def mkdir_new_def)

lemma imageset_rewrite_write_fail:
  assumes "\<not> env Mkdir" "new_dir s = None"
    and "\<not> list_all (shard_ok env dl) (imageset_groups (map snd (by_url db)))"
  shows "\<exists>e t. imageset_rewrite env dl db s = (Some e, t) \<and> db_dir t = db_dir s \<and> old_dir t = old_dir s"
proof -
  let ?s1 = "s\<lparr>new_dir := Some Map.empty\<rparr>"
  have m: "mkdir_new env s = Inr ?s1" using assms by (simp add: mkdir_new_def)
  have "new_dir ?s1 \<noteq> None" by simp
  from write_imageset_shards_fail[OF this assms(3)]
  obtain e t where "write_imageset_shards env dl (imageset_groups (map snd (by_url db))) ?s1 = (Some e, t)"
    "db_dir t = db_dir ?s1" "old_dir t = old_dir ?s1" by blast
  then show ?thesis using m by (simp add: imageset_rewrite_def)
qed

lemma imageset_rewrite_written:
  assumes "\<not> env Mkdir" "new_dir s = None"
    and "list_all (shard_ok env dl) (imageset_groups (map snd (by_url db)))"
  shows "imageset_rewrite env dl db s =
    swap_dirs env (s\<lparr>new_dir := Some (shard_files dl (map snd (by_url db)))\<rparr>)"
proof -
  let ?s1 = "s\<lparr>new_dir := Some Map.empty\<rparr>"
  have m: "mkdir_new env s = Inr ?s1" using assms by (simp add: mkdir_new_def)
  have n: "new_dir ?s1 = Some Map.empty" by simp
  have "write_imageset_shards env dl (imageset_groups (map snd (by_url db))) ?s1 =
    (None, ?s1\<lparr>new_dir := Some (Map.empty ++ map_of (rev (map (shard_entry dl) (imageset_groups (map snd (by_url db))))))\<rparr>)"
    by (rule write_imageset_shards_ok[OF n assms(3)])
  then have "write_imageset_shards env dl (imageset_groups (map snd (by_url db))) ?s1 =
    (None, s\<lparr>new_dir := Some (shard_files dl (map snd (by_url db)))\<rparr>)"
    by (simp add: shard_files_of_groups)
  then show ?thesis using m by (simp add: imageset_rewrite_def)
qed

lemma imageset_rewrite_None:
  assumes "imageset_rewrite env dl db s = (None, t)"
  shows "\<not> env Mkdir \<and> new_dir s = None \<and>
    list_all (shard_ok env dl) (imageset_groups (map snd (by_url db))) \<and>
    swap_dirs env (s\<lparr>new_dir := Some (shard_files dl (map snd (by_url db)))\<rparr>) = (None, t)"
proof -
  have mk: "\<not> (env Mkdir \<or> new_dir s \<noteq> None)"
  proof
    assume "env Mkdir \<or> new_dir s \<noteq> None"
    then have "imageset_rewrite env dl db s = (Some OSError, s)"
      by (rule imageset_rewrite_mkdir_fail)
    with assms show False by simp
  qed
  then have mk': "\<not> env Mkdir" "new_dir s = None" by simp_all
  have ok: "list_all (shard_ok env dl) (imageset_groups (map snd (by_url db)))"
  proof (rule ccontr)
    assume "\<not> list_all (shard_ok env dl) (imageset_groups (map snd (by_url db)))"
    from imageset_rewrite_write_fail[OF mk' this]
    obtain e t' where "imageset_rewrite env dl db s = (Some e, t')" by blast
    with assms show False by simp
  qed
  show ?thesis using mk' ok imageset_rewrite_written[OF mk' ok] assms by simp
qed


subsection \<open>Evaluated example\<close>

lemmas prettify_eval = prettify_def prettify_line_def start_attr_tag_def chomp.simps attrs_done_def
  attr_match_def at_end_def rstrip_def is_space_def is_word_def latin1_word_chars_def is_tag_char_def tag_lines_def
  attr_line_def bind_err_def

lemmas example_eval = example_doc_lines_def imgset_a_def imgset_b_def db_ab_def db_ba_def
  fs_before_def old_catalog_def no_faults_def

lemma example_groups:
  "imageset_groups [imgset_a, imgset_b] = [(''sky_visible'', [imgset_a, imgset_b])]"
  "imageset_groups [imgset_b, imgset_a] = [(''sky_visible'', [imgset_b, imgset_a])]"
  by (simp_all add: imageset_groups_def imageset_key_def lower_def lower_char_def upper_letters_def lower_letters_def example_eval)

lemma example_sorted:
  "sort_key url [imgset_a, imgset_b] = [imgset_a, imgset_b]"
  "sort_key url [imgset_b, imgset_a] = [imgset_a, imgset_b]"
  by (simp_all add: example_eval)

lemma example_text:
  "prettify (example_doc_lines ''sky_visible'' [imgset_a, imgset_b]) =
    ([''<Folder'', ''  Name=\"sky_visible\"'', ''>'',
      ''  <ImageSet'', ''    Url=\"http://a\"'', ''  ></ImageSet>'',
      ''  <ImageSet'', ''    Url=\"http://b\"'', ''  ></ImageSet>'',
      ''</Folder>''], None)"
  by (simp add: prettify_eval example_eval)

lemma example_ok:
  "list_all (shard_ok env example_doc_lines) (imageset_groups (map snd (by_url db_ab))) \<longleftrightarrow>
     \<not> env (OpenFile ''sky_visible.xml'')"
  using example_groups(1) example_sorted(1) example_text
  by (simp add: db_ab_def shard_ok_def shard_text_def)

lemma example_run:
  "imageset_rewrite no_faults example_doc_lines db_ab fs_before = (None, fs_after)"
proof -
  have "imageset_rewrite no_faults example_doc_lines db_ab fs_before =
      swap_dirs no_faults (fs_before\<lparr>new_dir := Some (shard_files example_doc_lines (map snd (by_url db_ab)))\<rparr>)"
    by (rule imageset_rewrite_written) (simp_all add: example_ok, simp_all add: no_faults_def fs_before_def)
  also have "\<dots> = (None, fs_after)"
    by (simp add: swap_dirs_def no_faults_def fs_before_def fs_after_def db_ab_def)
  finally show ?thesis .
qed


text \<open>
  C2, as stated, fails: when the second \<^verbatim>\<open>rename\<close> fails, the error is raised, the
  catalogue path is missing and the old directory is at the \<^verbatim>\<open>.old\<close> path. Here the
  rewrite of a store of two imagesets over an existing catalogue is evaluated in an
  environment where only this call fails.
\<close>

theorem imageset_rewrite_partial_counterexample:
  "fst (imageset_rewrite second_rename_fails example_doc_lines db_ab fs_before) = Some OSError \<and>
   db_dir (snd (imageset_rewrite second_rename_fails example_doc_lines db_ab fs_before)) = None \<and>
   old_dir (snd (imageset_rewrite second_rename_fails example_doc_lines db_ab fs_before)) = Some old_catalog \<and>
   db_dir fs_before = Some old_catalog"
proof -
  have "imageset_rewrite second_rename_fails example_doc_lines db_ab fs_before =
      swap_dirs second_rename_fails (fs_before\<lparr>new_dir := Some (shard_files example_doc_lines (map snd (by_url db_ab)))\<rparr>)"
    by (rule imageset_rewrite_written)
      (simp_all add: example_ok, simp_all add: second_rename_fails_def fs_before_def)
  then show ?thesis
    by (simp add: swap_dirs_def second_rename_fails_def fs_before_def)
qed


text \<open>
  When \<^verbatim>\<open>rmtree\<close> has deleted every file of the old directory and fails on the
  directory itself, the catalogue is replaced and an empty directory is left at the
  \<^verbatim>\<open>.old\<close> path.
\<close>

lemma rmtree_example:
  "imageset_rewrite rmtree_fails example_doc_lines db_ab fs_before =
     (Some OSError, \<lparr>db_dir = Some (shard_files example_doc_lines (map snd (by_url db_ab))),
        new_dir = None, old_dir = Some Map.empty\<rparr>)"
proof -
  have "imageset_rewrite rmtree_fails example_doc_lines db_ab fs_before =
      swap_dirs rmtree_fails (fs_before\<lparr>new_dir := Some (shard_files example_doc_lines (map snd (by_url db_ab)))\<rparr>)"
    by (rule imageset_rewrite_written)
      (simp_all add: example_ok, simp_all add: rmtree_fails_def fs_before_def)
  then show ?thesis
    by (simp add: swap_dirs_def rmtree_fails_def fs_before_def kept_entries_def fun_eq_iff)
qed

text \<open>
  C2, amended. Every run of \<^verbatim>\<open>ImagesetDatabase.rewrite\<close> ends in one of four ways:
  it succeeds, and the catalogue directory holds exactly the shard files of the store;
  or it raises with the catalogue directory and the \<^verbatim>\<open>.old\<close> path as they were; or
  the second \<^verbatim>\<open>rename\<close> fails, and it raises with the catalogue path missing, the old
  directory at the \<^verbatim>\<open>.old\<close> path and the new shard files in the temporary directory;
  or \<^verbatim>\<open>rmtree\<close> fails, and it raises with the catalogue directory replaced and, at
  the \<^verbatim>\<open>.old\<close> path, a directory with the entries of the old directory that
  \<^verbatim>\<open>rmtree\<close> had not deleted, each with its content.
\<close>

theorem imageset_rewrite_outcomes:
  fixes env dl db s
  defines "r \<equiv> imageset_rewrite env dl db s"
  defines "files \<equiv> shard_files dl (map snd (by_url db))"
  shows
   "(\<exists>t. r = (None, t) \<and> db_dir t = Some files \<and> new_dir t = None \<and> old_dir t = None) \<or>
    (\<exists>e t. r = (Some e, t) \<and> db_dir t = db_dir s \<and> old_dir t = old_dir s) \<or>
    (\<exists>t. r = (Some OSError, t) \<and> env RenameNew \<and> db_dir t = None \<and> old_dir t = db_dir s \<and>
       new_dir t = Some files) \<or>
    (\<exists>t old rest. r = (Some OSError, t) \<and> env Rmtree \<and> db_dir t = Some files \<and>
       db_dir s = Some old \<and> old_dir t = Some rest \<and> rest \<subseteq>\<^sub>m old \<and>
       dom rest = {name \<in> dom old. env (Kept name)} \<and> new_dir t = None)"
proof (cases "env Mkdir \<or> new_dir s \<noteq> None")
  case True
  then have "r = (Some OSError, s)" unfolding r_def by (rule imageset_rewrite_mkdir_fail)
  then show ?thesis by simp
next
  case False
  then have mk: "\<not> env Mkdir" "new_dir s = None" by simp_all
  show ?thesis
  proof (cases "list_all (shard_ok env dl) (imageset_groups (map snd (by_url db)))")
    case False
    from imageset_rewrite_write_fail[OF mk False] show ?thesis unfolding r_def by blast
  next
    case True
    let ?s2 = "s\<lparr>new_dir := Some files\<rparr>"
    have r: "r = swap_dirs env ?s2"
      unfolding r_def files_def by (rule imageset_rewrite_written[OF mk True])
    show ?thesis
    proof (cases "db_dir s")
      case None
      then show ?thesis unfolding r by (simp add: swap_dirs_def)
    next
      case (Some old)
      have k: "kept_entries env old \<subseteq>\<^sub>m old"
        "dom (kept_entries env old) = {name \<in> dom old. env (Kept name)}"
        by (auto simp: kept_entries_def map_le_def dom_def)
      show ?thesis
      proof (cases "env RenameOld \<or> (old_dir s \<noteq> None \<and> old_dir s \<noteq> Some Map.empty)")
        case True
        then have "r = (Some OSError, ?s2)" unfolding r by (auto simp: swap_dirs_def)
        then show ?thesis by simp
      next
        case False
        note f1 = False
        show ?thesis
        proof (cases "env RenameNew")
          case True
          then have "r = (Some OSError, ?s2\<lparr>old_dir := db_dir s, db_dir := None\<rparr>)"
            unfolding r using f1 Some by (auto simp: swap_dirs_def Let_def)
          then show ?thesis using True by simp
        next
          case False
          note f2 = False
          show ?thesis
          proof (cases "env Rmtree")
            case True
            have "r = (Some OSError, ?s2\<lparr>old_dir := Some (kept_entries env old),
                db_dir := Some files, new_dir := None\<rparr>)"
              unfolding r using f1 f2 Some True by (auto simp: swap_dirs_def Let_def)
            then show ?thesis using True Some k by simp
          next
            case False
            then have "r = (None, ?s2\<lparr>old_dir := None, db_dir := Some files, new_dir := None\<rparr>)"
              unfolding r using f1 f2 Some by (auto simp: swap_dirs_def Let_def)
            then show ?thesis by simp
          qed
        qed
      qed
    qed
  qed
qed

theorem imageset_rewrite_outcomes_witness:
  "(\<exists>t. imageset_rewrite second_rename_fails example_doc_lines db_ab fs_before = (None, t) \<and>
      db_dir t = Some (shard_files example_doc_lines (map snd (by_url db_ab))) \<and>
      new_dir t = None \<and> old_dir t = None) \<or>
   (\<exists>e t. imageset_rewrite second_rename_fails example_doc_lines db_ab fs_before = (Some e, t) \<and>
      db_dir t = db_dir fs_before \<and> old_dir t = old_dir fs_before) \<or>
   (\<exists>t. imageset_rewrite second_rename_fails example_doc_lines db_ab fs_before = (Some OSError, t) \<and>
      second_rename_fails RenameNew \<and> db_dir t = None \<and> old_dir t = db_dir fs_before \<and>
      new_dir t = Some (shard_files example_doc_lines (map snd (by_url db_ab)))) \<or>
   (\<exists>t old rest. imageset_rewrite second_rename_fails example_doc_lines db_ab fs_before =
        (Some OSError, t) \<and>
      second_rename_fails Rmtree \<and>
      db_dir t = Some (shard_files example_doc_lines (map snd (by_url db_ab))) \<and>
      db_dir fs_before = Some old \<and> old_dir t = Some rest \<and> rest \<subseteq>\<^sub>m old \<and>
      dom rest = {name \<in> dom old. second_rename_fails (Kept name)} \<and> new_dir t = None)"
  by (rule imageset_rewrite_outcomes)


subsection \<open>Determinism of the rewrite\<close>

lemma sort_key_unique:
  assumes inj: "inj_on f (set xs)" and same: "set xs = set ys"
    and dx: "distinct xs" and dy: "distinct ys"
  shows "sort_key f xs = sort_key f ys"
proof -
  have injy: "inj_on f (set ys)" using inj same by simp
  have a: "distinct (map f (sort_key f xs))" using inj dx by (simp add: distinct_map)
  have b: "distinct (map f (sort_key f ys))" using injy dy by (simp add: distinct_map)
  have c: "sorted (map f (sort_key f xs))" and d: "sorted (map f (sort_key f ys))" by simp_all
  have e: "set (map f (sort_key f xs)) = set (map f (sort_key f ys))" using same by simp
  have "map f (sort_key f xs) = map f (sort_key f ys)"
    by (rule sorted_distinct_set_unique[OF c a d b e])
  moreover have "inj_on f (set (sort_key f xs) \<union> set (sort_key f ys))" using inj same by simp
  ultimately show ?thesis by (simp add: inj_on_map_eq_map)
qed

lemma keyed_urls:
  fixes l :: "(string \<times> 'a imageset_scheme) list"
  shows "list_all (\<lambda>(u, s). url s = u) l \<Longrightarrow> map url (map snd l) = map fst l"
  by (induction l) auto

lemma idb_inv_urls:
  assumes "idb_inv db"
  shows "map url (map snd (by_url db)) = map fst (by_url db)"
proof -
  have "list_all (\<lambda>(u, s). url s = u) (by_url db)" using assms unfolding idb_inv_def by blast
  then show ?thesis by (rule keyed_urls)
qed

lemma idb_inv_distinct:
  assumes "idb_inv db"
  shows "distinct (map url (map snd (by_url db)))"
proof -
  have "distinct (map fst (by_url db))" using assms unfolding idb_inv_def by blast
  then show ?thesis unfolding idb_inv_urls[OF assms] .
qed

lemma shard_members_sorted_eq:
  assumes "distinct (map url xs)" and "distinct (map url ys)" and "set xs = set ys"
  shows "sort_key url (filter P xs) = sort_key url (filter P ys)"
proof (rule sort_key_unique)
  have "inj_on url (set xs)" using assms(1) by (simp add: distinct_map)
  then show "inj_on url (set (filter P xs))" by (rule inj_on_subset) auto
  show "set (filter P xs) = set (filter P ys)" using assms(3) by simp
  show "distinct (filter P xs)" using assms(1) by (simp add: distinct_map)
  show "distinct (filter P ys)" using assms(2) by (simp add: distinct_map)
qed

lemma shard_files_same_set:
  assumes "distinct (map url xs)" and "distinct (map url ys)" and "set xs = set ys"
  shows "shard_files dl xs = shard_files dl ys"
proof -
  let ?h = "\<lambda>zs key. (key @ ''.xml'',
      fst (shard_text dl key (filter (\<lambda>s. imageset_key s = key) zs)))"
  have h: "?h xs = ?h ys"
    using shard_members_sorted_eq[OF assms] by (simp add: shard_text_def fun_eq_iff)
  have inj: "inj_on (\<lambda>k::string. k @ ''.xml'') A" for A by (simp add: inj_on_def)
  have d: "distinct (map fst (map (?h zs) (remdups (map imageset_key zs'))))" for zs zs'
  proof -
    have "map fst (map (?h zs) (remdups (map imageset_key zs'))) =
        map (\<lambda>k. k @ ''.xml'') (remdups (map imageset_key zs'))" by simp
    then show ?thesis using inj by (simp add: distinct_map del: map_map)
  qed
  have "set (map (?h xs) (remdups (map imageset_key xs))) =
      set (map (?h ys) (remdups (map imageset_key ys)))"
    using assms(3) h by simp
  then have "map_of (map (?h xs) (remdups (map imageset_key xs))) =
      map_of (map (?h ys) (remdups (map imageset_key ys)))"
    using d map_of_inject_set by blast
  then show ?thesis by (simp add: shard_files_def)
qed

lemma groups_sorted_same:
  assumes "distinct (map url xs)" and "distinct (map url ys)" and "set xs = set ys"
  shows "(\<lambda>(k, ms). (k, sort_key url ms)) ` set (imageset_groups xs) =
         (\<lambda>(k, ms). (k, sort_key url ms)) ` set (imageset_groups ys)"
proof -
  have "(\<lambda>(k, ms). (k, sort_key url ms)) ` set (imageset_groups zs) =
      (\<lambda>k. (k, sort_key url (filter (\<lambda>x. imageset_key x = k) zs))) ` (imageset_key ` set zs)"
    for zs :: "'a imageset_scheme list"
    using groups_of_set[OF imageset_groups_of, of zs] by (simp add: image_image)
  then show ?thesis using shard_members_sorted_eq[OF assms] assms(3) by simp
qed

lemma shard_ok_sorted:
  "shard_ok env dl (k, ms) \<longleftrightarrow>
     \<not> env (OpenFile (k @ ''.xml'')) \<and> snd (prettify (dl k (sort_key url ms))) = None"
  by (simp add: shard_ok_def shard_text_def)

lemma all_shards_ok_same:
  assumes "distinct (map url xs)" and "distinct (map url ys)" and "set xs = set ys"
    and ok: "list_all (shard_ok env dl) (imageset_groups xs)"
  shows "list_all (shard_ok (\<lambda>_. False) dl) (imageset_groups ys)"
proof -
  have "shard_ok (\<lambda>_. False) dl g" if g: "g \<in> set (imageset_groups ys)" for g
  proof -
    obtain k ms where kms: "g = (k, ms)" by (cases g)
    have "(k, sort_key url ms) \<in> (\<lambda>(k, ms). (k, sort_key url ms)) ` set (imageset_groups ys)"
      using g kms by force
    then have "(k, sort_key url ms) \<in> (\<lambda>(k, ms). (k, sort_key url ms)) ` set (imageset_groups xs)"
      using groups_sorted_same[OF assms(1-3)] by simp
    then obtain ms' where m: "(k, ms') \<in> set (imageset_groups xs)" "sort_key url ms' = sort_key url ms"
      by auto
    have "shard_ok env dl (k, ms')" using ok m(1) by (simp add: list_all_iff)
    then show ?thesis using m(2) kms by (simp add: shard_ok_sorted)
  qed
  then show ?thesis by (simp add: list_all_iff)
qed


text \<open>
  C7. The shard files a successful rewrite leaves in the catalogue directory are a function
  of the set of imagesets held: two stores that hold the same imagesets, in any order of
  insertion, give the same files with the same contents, whatever the file system was
  before, since the members of a shard are sorted by URL and the URLs of a store are
  distinct. After a successful rewrite, a second rewrite in an environment without
  failures succeeds and leaves the same directory.
\<close>

theorem imageset_rewrite_deterministic:
  assumes inv1: "idb_inv db1" and inv2: "idb_inv db2"
    and same: "set (by_url db1) = set (by_url db2)"
    and run1: "imageset_rewrite env1 dl db1 s1 = (None, t1)"
  shows "db_dir t1 = Some (shard_files dl (map snd (by_url db1))) \<and>
         shard_files dl (map snd (by_url db1)) = shard_files dl (map snd (by_url db2)) \<and>
         (\<forall>env2 s2 t2. imageset_rewrite env2 dl db2 s2 = (None, t2) \<longrightarrow> db_dir t2 = db_dir t1) \<and>
         (\<exists>t2. imageset_rewrite (\<lambda>_. False) dl db2 t1 = (None, t2) \<and> db_dir t2 = db_dir t1)"
proof -
  let ?xs = "map snd (by_url db1)" and ?ys = "map snd (by_url db2)"
  have dx: "distinct (map url ?xs)" using inv1 by (rule idb_inv_distinct)
  have dy: "distinct (map url ?ys)" using inv2 by (rule idb_inv_distinct)
  have st: "set ?xs = set ?ys" using same by simp
  have files: "shard_files dl ?xs = shard_files dl ?ys"
    using dx dy st by (rule shard_files_same_set)
  from imageset_rewrite_None[OF run1]
  have ok1: "list_all (shard_ok env1 dl) (imageset_groups ?xs)"
    and sw1: "swap_dirs env1 (s1\<lparr>new_dir := Some (shard_files dl ?xs)\<rparr>) = (None, t1)"
    by simp_all
  from swap_dirs_None[OF sw1]
  have t1: "t1 = s1\<lparr>new_dir := Some (shard_files dl ?xs)\<rparr>\<lparr>old_dir := None,
      db_dir := Some (shard_files dl ?xs), new_dir := None\<rparr>" by simp
  then have d1: "db_dir t1 = Some (shard_files dl ?xs)" by simp
  have any: "db_dir t2 = db_dir t1" if "imageset_rewrite env2 dl db2 s2 = (None, t2)" for env2 s2 t2
  proof -
    from imageset_rewrite_None[OF that]
    have "swap_dirs env2 (s2\<lparr>new_dir := Some (shard_files dl ?ys)\<rparr>) = (None, t2)" by simp
    from swap_dirs_None[OF this] have "db_dir t2 = Some (shard_files dl ?ys)" by simp
    then show ?thesis using d1 files by simp
  qed
  have ok2: "list_all (shard_ok (\<lambda>_. False) dl) (imageset_groups ?ys)"
    using dx dy st ok1 by (rule all_shards_ok_same)
  have n1: "new_dir t1 = None" "old_dir t1 = None" "db_dir t1 \<noteq> None" using t1 by simp_all
  have "imageset_rewrite (\<lambda>_. False) dl db2 t1 =
      swap_dirs (\<lambda>_. False) (t1\<lparr>new_dir := Some (shard_files dl ?ys)\<rparr>)"
    using n1 ok2 by (intro imageset_rewrite_written) simp_all
  also have "\<dots> = (None, t1\<lparr>new_dir := Some (shard_files dl ?ys)\<rparr>\<lparr>old_dir := None,
      db_dir := new_dir (t1\<lparr>new_dir := Some (shard_files dl ?ys)\<rparr>), new_dir := None\<rparr>)"
    using n1 by (intro swap_dirs_ok) simp_all
  finally have "\<exists>t2. imageset_rewrite (\<lambda>_. False) dl db2 t1 = (None, t2) \<and> db_dir t2 = db_dir t1"
    using d1 files by simp
  with d1 files any show ?thesis by blast
qed

theorem imageset_rewrite_deterministic_witness:
  "imageset_rewrite no_faults example_doc_lines db_ab fs_before = (None, fs_after) \<and>
   db_dir fs_after = Some (shard_files example_doc_lines (map snd (by_url db_ba))) \<and>
   (\<exists>t2. imageset_rewrite (\<lambda>_. False) example_doc_lines db_ba fs_after = (None, t2) \<and>
      db_dir t2 = db_dir fs_after)"
proof -
  have i1: "idb_inv db_ab" by (simp add: idb_inv_def example_eval)
  have i2: "idb_inv db_ba" by (simp add: idb_inv_def example_eval)
  have s: "set (by_url db_ab) = set (by_url db_ba)" by (auto simp: db_ab_def db_ba_def)
  note d = imageset_rewrite_deterministic[OF i1 i2 s example_run]
  from d have a: "db_dir fs_after = Some (shard_files example_doc_lines (map snd (by_url db_ab)))"
    and b: "shard_files example_doc_lines (map snd (by_url db_ab)) =
      shard_files example_doc_lines (map snd (by_url db_ba))"
    and c: "\<exists>t2. imageset_rewrite (\<lambda>_. False) example_doc_lines db_ba fs_after = (None, t2) \<and>
      db_dir t2 = db_dir fs_after"
    by blast+
  from a b have "db_dir fs_after = Some (shard_files example_doc_lines (map snd (by_url db_ba)))"
    by (rule trans[OF _ arg_cong])
  with example_run c show ?thesis by blast
qed


subsection \<open>The serializer on a tag line\<close>

lemma word_not_space: "is_word c \<Longrightarrow> \<not> is_space c"
  by (auto simp: is_word_def latin1_word_chars_def is_space_def)

lemma space_not_tag_char: "is_space c \<Longrightarrow> \<not> is_tag_char c"
  using word_not_space[of c] by (auto simp: is_tag_char_def is_space_def)

lemma special_chars:
  "\<not> is_space (CHR ''>'')" "\<not> is_space (CHR ''/'')" "\<not> is_space (CHR ''<'')"
  "\<not> is_word (CHR ''>'')" "\<not> is_word (CHR ''/'')" "\<not> is_word (CHR ''='')"
  "is_space (CHR 0x0A)"
  by (simp_all add: is_space_def is_word_def latin1_word_chars_def)

lemma dropWhile_all: "list_all P xs \<Longrightarrow> dropWhile P (xs @ ys) = dropWhile P ys"
  by (simp add: list_all_iff)

lemma takeWhile_all: "list_all P xs \<Longrightarrow> takeWhile P (xs @ ys) = xs @ takeWhile P ys"
  by (simp add: list_all_iff)

lemma attrs_done_closing:
  assumes "list_all is_space ws"
  shows "attrs_done (ws @ closing se) = Some se"
  using assms by (simp add: attrs_done_def dropWhile_all closing_def special_chars at_end_def)

lemma attrs_done_attr:
  assumes "wf_attr a"
  shows "attrs_done (fst a @ fst (snd a) @ rest) = None"
proof -
  obtain c n where n: "fst (snd a) = c # n" "is_word c"
    using assms by (cases "fst (snd a)") (auto simp: wf_attr_def)
  have "c \<noteq> CHR ''>''" "c \<noteq> CHR ''/''" "\<not> is_space c"
    using n(2) special_chars word_not_space by auto
  then show ?thesis
    using assms n by (simp add: attrs_done_def wf_attr_def dropWhile_all)
qed

lemma attr_match_attr:
  assumes "wf_attr a"
  shows "attr_match (fst a @ fst (snd a) @ ''=\"'' @ snd (snd a) @ ''\"'' @ rest) =
    Some (fst (snd a), snd (snd a), rest)"
proof -
  let ?w = "fst a" and ?n = "fst (snd a)" and ?v = "snd (snd a)"
  have w: "list_all is_space ?w" and n: "?n \<noteq> []" "list_all is_word ?n"
    and v: "list_all (\<lambda>c. c \<noteq> CHR 0x22) ?v"
    using assms by (simp_all add: wf_attr_def)
  have hd: "\<not> is_space (hd ?n)" using n word_not_space by (cases ?n) auto
  have d1: "dropWhile is_space (?w @ ?n @ ''=\"'' @ ?v @ ''\"'' @ rest) = ?n @ ''=\"'' @ ?v @ ''\"'' @ rest"
    using w n hd by (cases ?n) (simp_all add: dropWhile_all)
  have t2: "takeWhile is_word (?n @ ''=\"'' @ ?v @ ''\"'' @ rest) = ?n"
    using n by (simp add: takeWhile_all special_chars)
  have d2: "dropWhile is_word (?n @ ''=\"'' @ ?v @ ''\"'' @ rest) = ''=\"'' @ ?v @ ''\"'' @ rest"
    using n by (simp add: dropWhile_all special_chars)
  have t3: "takeWhile (\<lambda>c. c \<noteq> CHR 0x22) (?v @ ''\"'' @ rest) = ?v"
    using v by (simp add: takeWhile_all)
  have d3: "dropWhile (\<lambda>c. c \<noteq> CHR 0x22) (?v @ ''\"'' @ rest) = ''\"'' @ rest"
    using v by (simp add: dropWhile_all)
  show ?thesis
    unfolding attr_match_def Let_def d1 t2 d2 using n(1) t3 d3 by simp
qed

lemma chomp_attrs_text:
  assumes "list_all wf_attr as" and "list_all is_space ws"
  shows "chomp (attrs_text as ws se) acc =
    (if distinct (map fst (map snd as)) \<and> fst ` set acc \<inter> set (map fst (map snd as)) = {}
     then Inr (acc @ map snd as, se) else Inl AssertionError)"
  using assms
proof (induction as arbitrary: acc)
  case Nil
  then show ?case by (simp add: chomp.simps attrs_done_closing)
next
  case (Cons a as)
  let ?n = "fst (snd a)" and ?v = "snd (snd a)"
  have wf: "wf_attr a" and wfs: "list_all wf_attr as" using Cons.prems(1) by simp_all
  have nd: "attrs_done (attrs_text (a # as) ws se) = None"
    using attrs_done_attr[OF wf] by simp
  have am: "attr_match (attrs_text (a # as) ws se) = Some (?n, ?v, attrs_text as ws se)"
    using attr_match_attr[OF wf] by simp
  have step: "chomp (attrs_text (a # as) ws se) acc =
      (if ?n \<in> fst ` set acc then Inl AssertionError
       else chomp (attrs_text as ws se) (acc @ [(?n, ?v)]))"
    by (subst chomp.simps) (simp only: nd am option.case prod.case)
  show ?case
  proof (cases "?n \<in> fst ` set acc")
    case True
    then show ?thesis using step by auto
  next
    case False
    have "chomp (attrs_text as ws se) (acc @ [(?n, ?v)]) =
      (if distinct (map fst (map snd as)) \<and>
          fst ` set (acc @ [(?n, ?v)]) \<inter> set (map fst (map snd as)) = {}
       then Inr ((acc @ [(?n, ?v)]) @ map snd as, se) else Inl AssertionError)"
      by (rule Cons.IH[OF wfs Cons.prems(2)])
    then show ?thesis using step False by auto
  qed
qed


lemma attrs_done_SomeD:
  assumes "attrs_done atext = Some se"
  shows "\<exists>ws e. list_all is_space ws \<and> at_end e \<and> atext = ws @ closing se @ e"
proof -
  let ?ws = "takeWhile is_space atext" and ?r = "dropWhile is_space atext"
  have ws: "list_all is_space ?ws" by (auto simp: list_all_iff dest: set_takeWhileD)
  have tx: "atext = ?ws @ ?r" by simp
  have "\<exists>e. at_end e \<and> ?r = closing se @ e"
    using assms by (auto simp: attrs_done_def closing_def split: list.splits if_splits)
  then obtain e where "at_end e" "?r = closing se @ e" by blast
  with ws tx show ?thesis by metis
qed

lemma attr_match_SomeD:
  assumes "attr_match atext = Some (n, v, rest)"
  shows "\<exists>w. wf_attr (w, n, v) \<and> atext = w @ n @ ''=\"'' @ v @ ''\"'' @ rest"
proof -
  let ?w = "takeWhile is_space atext" and ?r = "dropWhile is_space atext"
  have n: "n = takeWhile is_word ?r" "n \<noteq> []"
    using assms by (auto simp: attr_match_def Let_def split: list.splits if_splits)
  obtain r2 where r2: "dropWhile is_word ?r = CHR ''='' # CHR 0x22 # r2"
    using assms by (auto simp: attr_match_def Let_def split: list.splits if_splits)
  obtain c where c: "dropWhile (\<lambda>c. c \<noteq> CHR 0x22) r2 = c # rest"
    and v: "v = takeWhile (\<lambda>c. c \<noteq> CHR 0x22) r2"
    using assms r2 by (auto simp: attr_match_def Let_def split: list.splits if_splits)
  have "dropWhile (\<lambda>c. c \<noteq> CHR 0x22) r2 \<noteq> []" using c by simp
  then have "\<not> (hd (dropWhile (\<lambda>c. c \<noteq> CHR 0x22) r2) \<noteq> CHR 0x22)"
    by (rule hd_dropWhile)
  then have cq: "c = CHR 0x22" using c by simp
  have "r2 = v @ c # rest" using c v takeWhile_dropWhile_id[of "\<lambda>c. c \<noteq> CHR 0x22" r2] by simp
  moreover have "?r = n @ CHR ''='' # CHR 0x22 # r2"
    using r2 n(1) takeWhile_dropWhile_id[of is_word ?r] by simp
  moreover have "atext = ?w @ ?r" by simp
  ultimately have tx: "atext = ?w @ n @ ''=\"'' @ v @ ''\"'' @ rest" using cq by simp
  have "list_all is_space ?w" by (auto simp: list_all_iff dest: set_takeWhileD)
  moreover have "list_all is_word n" unfolding n(1) by (auto simp: list_all_iff dest: set_takeWhileD)
  moreover have "list_all (\<lambda>c. c \<noteq> CHR 0x22) v"
    unfolding v by (auto simp: list_all_iff dest: set_takeWhileD)
  ultimately have "wf_attr (?w, n, v)" using n(2) by (simp add: wf_attr_def)
  with tx show ?thesis by blast
qed

lemma chomp_InrD:
  assumes "chomp atext acc = Inr (r, se)"
  shows "\<exists>as ws e. list_all wf_attr as \<and> list_all is_space ws \<and> at_end e \<and>
    atext = attrs_text as ws se @ e \<and> r = acc @ map snd as \<and>
    distinct (map fst (map snd as)) \<and> fst ` set acc \<inter> set (map fst (map snd as)) = {}"
  using assms
proof (induction atext acc rule: chomp.induct)
  case (1 atext attrs)
  show ?case
  proof (cases "attrs_done atext")
    case (Some b)
    then have "r = attrs" "se = b" using "1.prems" by (simp_all add: chomp.simps[of atext attrs])
    moreover obtain ws e where "list_all is_space ws" "at_end e" "atext = ws @ closing b @ e"
      using attrs_done_SomeD[OF Some] by blast
    ultimately have "list_all wf_attr [] \<and> list_all is_space ws \<and> at_end e \<and>
      atext = attrs_text [] ws se @ e \<and> r = attrs @ map snd [] \<and>
      distinct (map fst (map snd ([] :: (string \<times> string \<times> string) list))) \<and>
      fst ` set attrs \<inter> set (map fst (map snd ([] :: (string \<times> string \<times> string) list))) = {}"
      by simp
    then show ?thesis by blast
  next
    case None
    then obtain n v rest where am: "attr_match atext = Some (n, v, rest)"
      using "1.prems" by (cases "attr_match atext") (auto simp: chomp.simps[of atext attrs])
    have fresh: "n \<notin> fst ` set attrs"
      using "1.prems" None am by (auto simp: chomp.simps[of atext attrs] split: if_splits)
    then have rec: "chomp rest (attrs @ [(n, v)]) = Inr (r, se)"
      using "1.prems" None am by (simp add: chomp.simps[of atext attrs])
    from "1.IH"[OF None am refl refl fresh rec]
    obtain as ws e where ih: "list_all wf_attr as" "list_all is_space ws" "at_end e"
      "rest = attrs_text as ws se @ e" "r = (attrs @ [(n, v)]) @ map snd as"
      "distinct (map fst (map snd as))"
      "fst ` set (attrs @ [(n, v)]) \<inter> set (map fst (map snd as)) = {}"
      by auto
    obtain w where w: "wf_attr (w, n, v)" "atext = w @ n @ ''=\"'' @ v @ ''\"'' @ rest"
      using attr_match_SomeD[OF am] by blast
    have "list_all wf_attr ((w, n, v) # as) \<and> list_all is_space ws \<and> at_end e \<and>
      atext = attrs_text ((w, n, v) # as) ws se @ e \<and> r = attrs @ map snd ((w, n, v) # as) \<and>
      distinct (map fst (map snd ((w, n, v) # as))) \<and>
      fst ` set attrs \<inter> set (map fst (map snd ((w, n, v) # as))) = {}"
      using ih w fresh by auto
    then show ?thesis by blast
  qed
qed

lemma chomp_InlD: "chomp atext acc = Inl e \<Longrightarrow> e = AssertionError"
proof (induction atext acc rule: chomp.induct)
  case (1 atext attrs)
  show ?case
  proof (cases "attrs_done atext")
    case (Some b)
    then show ?thesis using "1.prems" by (simp add: chomp.simps[of atext attrs])
  next
    case None
    show ?thesis
    proof (cases "attr_match atext")
      case None': None
      then show ?thesis using "1.prems" None by (simp add: chomp.simps[of atext attrs])
    next
      case (Some t)
      obtain n v rest where t: "t = (n, v, rest)" by (cases t)
      show ?thesis
      proof (cases "n \<in> fst ` set attrs")
        case True
        then show ?thesis using "1.prems" None Some t by (simp add: chomp.simps[of atext attrs])
      next
        case False
        then have rec: "chomp rest (attrs @ [(n, v)]) = Inl e"
          using "1.prems" None Some t by (simp add: chomp.simps[of atext attrs])
        have am: "attr_match atext = Some (n, v, rest)" using Some t by simp
        show ?thesis by (rule "1.IH"[OF None am refl refl False rec])
      qed
    qed
  qed
qed

lemma rstrip_no_trailing_space:
  "rstrip s = [] \<or> \<not> is_space (last (rstrip s))"
proof (cases "dropWhile is_space (rev s)")
  case Nil
  then show ?thesis by (simp add: rstrip_def)
next
  case (Cons c r)
  then have "dropWhile is_space (rev s) \<noteq> []" by simp
  then have "\<not> is_space (hd (dropWhile is_space (rev s)))"
    by (rule hd_dropWhile)
  then show ?thesis using Cons by (simp add: rstrip_def)
qed

lemma rstrip_trailing:
  assumes "\<not> is_space x" and "list_all is_space trail"
  shows "rstrip (xs @ x # trail) = xs @ [x]"
proof -
  have "list_all is_space (rev trail)" using assms(2) by (simp add: list_all_iff)
  then have "dropWhile is_space (rev trail @ x # rev xs) = x # rev xs"
    using assms(1) by (simp add: dropWhile_all)
  then show ?thesis by (simp add: rstrip_def)
qed

lemma attrs_text_last: "\<exists>p. attrs_text as ws se = p @ ''>''"
proof (induction as)
  case Nil
  show ?case by (cases se) (simp_all add: closing_def)
next
  case (Cons a as)
  then obtain p where "attrs_text as ws se = p @ ''>''" by blast
  then have "attrs_text (a # as) ws se = (fst a @ fst (snd a) @ ''=\"'' @ snd (snd a) @ ''\"'' @ p) @ ''>''"
    by simp
  then show ?case by blast
qed

lemma rstrip_attrs_text:
  assumes "list_all is_space trail"
  shows "rstrip (attrs_text as ws se @ trail) = attrs_text as ws se"
proof -
  obtain p where p: "attrs_text as ws se = p @ ''>''" using attrs_text_last by blast
  have "rstrip (p @ CHR ''>'' # trail) = p @ ''>''"
    using assms by (intro rstrip_trailing) (simp_all add: special_chars)
  then show ?thesis using p by simp
qed

lemma start_attr_tag_line:
  assumes "list_all is_space indent" and "tag \<noteq> []" and "list_all is_tag_char tag"
    and "is_space c"
  shows "start_attr_tag (indent @ ''<'' @ tag @ [c] @ rest) = Some (indent, tag, rest)"
proof -
  have t1: "takeWhile is_space (indent @ ''<'' @ tag @ [c] @ rest) = indent"
    using assms(1) by (simp add: takeWhile_all special_chars)
  have d1: "dropWhile is_space (indent @ ''<'' @ tag @ [c] @ rest) = ''<'' @ tag @ [c] @ rest"
    using assms(1) by (simp add: dropWhile_all special_chars)
  have nc: "\<not> is_tag_char c" using assms(4) by (rule space_not_tag_char)
  have t2: "takeWhile is_tag_char (tag @ [c] @ rest) = tag"
    using assms(3) nc by (simp add: takeWhile_all)
  have d2: "dropWhile is_tag_char (tag @ [c] @ rest) = c # rest"
    using assms(3) nc by (simp add: dropWhile_all)
  show ?thesis
    unfolding start_attr_tag_def Let_def t1 d1 using t2 d2 assms(2,4) by simp
qed


lemma sorted_pairs_fst:
  fixes xs :: "(string \<times> string) list"
  shows "sorted xs \<Longrightarrow> sorted (map fst xs)"
proof (induction xs)
  case Nil
  then show ?case by simp
next
  case (Cons x xs)
  have "fst x \<le> fst y" if "y \<in> set xs" for y
  proof -
    have "x \<le> y" using Cons.prems that by simp
    then show ?thesis by (auto simp: less_eq_prod_def)
  qed
  then show ?case using Cons by simp
qed

lemma prettify_lines_append:
  assumes "prettify_lines pre out = (printed, None)"
  shows "prettify_lines (pre @ rest) out = prettify_lines rest printed"
  using assms
proof (induction pre arbitrary: out)
  case Nil
  then show ?case by simp
next
  case (Cons l pre)
  show ?case
  proof (cases "prettify_line l")
    case (Inl e)
    then show ?thesis using Cons.prems by simp
  next
    case (Inr p)
    then have "prettify_lines pre (out @ p) = (printed, None)" using Cons.prems by simp
    from Cons.IH[OF this] show ?thesis using Inr by simp
  qed
qed

lemma prettify_lines_extends:
  "\<exists>more err. prettify_lines lines out = (out @ more, err)"
proof (induction lines arbitrary: out)
  case Nil
  show ?case by simp
next
  case (Cons l lines)
  show ?case
  proof (cases "prettify_line l")
    case (Inl e)
    then show ?thesis by simp
  next
    case (Inr p)
    from Cons.IH[of "out @ p"] obtain more err where
      "prettify_lines lines (out @ p) = ((out @ p) @ more, err)" by blast
    then have "prettify_lines (l # lines) out = (out @ (p @ more), err)" using Inr by simp
    then show ?thesis by blast
  qed
qed

lemma chomp_no_parse:
  assumes "chomp atext [] = Inl e"
  shows "\<not> (\<exists>as ws se. list_all wf_attr as \<and> list_all is_space ws \<and>
    distinct (map fst (map snd as)) \<and> atext = attrs_text as ws se)"
proof
  assume "\<exists>as ws se. list_all wf_attr as \<and> list_all is_space ws \<and>
    distinct (map fst (map snd as)) \<and> atext = attrs_text as ws se"
  then obtain as ws se where p: "list_all wf_attr as" "list_all is_space ws"
    "distinct (map fst (map snd as))" "atext = attrs_text as ws se" by blast
  have "chomp atext [] = Inr ([] @ map snd as, se)"
    unfolding p(4) chomp_attrs_text[OF p(1,2)] using p(3) by simp
  with assms show False by simp
qed

text \<open>Characters of Latin-1: a letter with an accent in an attribute name, the no-break
  space and the next-line character as white space, and an upper-case letter with an
  accent in a key.\<close>

lemma latin1_examples:
  "prettify_line (''<foo '' @ [CHR 0xE9] @ ''=\"1\" a=\"2\" />'') =
     Inr [''<foo'', ''  a=\"2\"'', ''  '' @ [CHR 0xE9] @ ''=\"1\"'', ''></foo>'']"
  "prettify_line (''<foo'' @ [CHR 0xA0] @ ''a=\"2\"'' @ [CHR 0x85] @ ''>'' @ [CHR 0xA0]) =
     Inr [''<foo'', ''  a=\"2\"'', ''>'']"
  "lower (''Sky_'' @ [CHR 0xC9]) = ''sky_'' @ [CHR 0xE9]"
  by (simp_all add: prettify_eval less_eq_prod_def lower_def lower_char_def upper_letters_def
      lower_letters_def)

lemma malformed_examples:
  "chomp (rstrip ''a=\"x\"y\" />'') [] = Inl AssertionError"
  "chomp (rstrip ''a=\"1\" a=\"2\"/>'') [] = Inl AssertionError"
  "start_attr_tag ''<foo a=\"x\"y\" />'' = Some ([], ''foo'', ''a=\"x\"y\" />'')"
  "start_attr_tag ''  <foo a=\"1\" a=\"2\"/>'' = Some (''  '', ''foo'', ''a=\"1\" a=\"2\"/>'')"
  by (simp_all add: prettify_eval)


text \<open>
  C8. A line made of an indent, \<^verbatim>\<open><\<close>, a tag name, a white-space character,
  well-formed attributes with distinct names, an ending marker and trailing white space
  is printed as the line of the indent and \<^verbatim>\<open><tag\<close>, then one line per attribute
  in the form \<^verbatim>\<open>name="value"\<close>, indented two spaces deeper, in ascending order of
  the names whatever their order in the input, then \<^verbatim>\<open>>\<close>, or \<^verbatim>\<open>></tag>\<close> for
  a self-closing tag. The serializer prints these lines wherever the line stands in the
  text: after what it printed for the lines before, and before it goes on with the lines
  after. The witness is the line \<^verbatim>\<open><foo b="2" a="1"/>\<close>, alone and inside a
  document.
\<close>

theorem prettify_tag_line:
  fixes se :: bool
  assumes "list_all is_space indent" and "tag \<noteq> []" and "list_all is_tag_char tag"
    and "is_space c" and "list_all wf_attr as" and "list_all is_space ws"
    and "list_all is_space trail" and "distinct (map fst (map snd as))"
  defines "line \<equiv> indent @ ''<'' @ tag @ [c] @ attrs_text as ws se @ trail"
  defines "attrs \<equiv> sort (map snd as)"
  defines "block \<equiv> [indent @ ''<'' @ tag] @
                map (\<lambda>a. indent @ ''  '' @ fst a @ ''=\"'' @ snd a @ ''\"'') attrs @
                [indent @ (if se then ''></'' @ tag @ ''>'' else ''>'')]"
  shows "prettify_line line = Inr block \<and>
         mset attrs = mset (map snd as) \<and> sorted (map fst attrs) \<and> distinct (map fst attrs) \<and>
         (\<forall>lines out. prettify_lines (line # lines) out = prettify_lines lines (out @ block)) \<and>
         (\<forall>pre printed post. prettify pre = (printed, None) \<longrightarrow>
            prettify (pre @ line # post) = prettify_lines post (printed @ block) \<and>
            (\<exists>more err. prettify (pre @ line # post) = (printed @ block @ more, err)))"
proof -
  have st: "start_attr_tag line = Some (indent, tag, attrs_text as ws se @ trail)"
    unfolding line_def using assms(1-4) by (rule start_attr_tag_line)
  have rs: "rstrip (attrs_text as ws se @ trail) = attrs_text as ws se"
    using assms(7) by (rule rstrip_attrs_text)
  have ch: "chomp (attrs_text as ws se) [] = Inr (map snd as, se)"
    unfolding chomp_attrs_text[OF assms(5,6)] using assms(8) by simp
  have out: "prettify_line line = Inr block"
  proof -
    have "prettify_line line =
        bind_err (chomp (rstrip (attrs_text as ws se @ trail)) [])
          (\<lambda>(attrs, self_ending). Inr (tag_lines indent tag attrs self_ending))"
      by (simp add: prettify_line_def st)
    also have "\<dots> = Inr (tag_lines indent tag (map snd as) se)"
      by (simp only: rs ch bind_err_def sum.case prod.case)
    finally show ?thesis
      by (simp add: tag_lines_def attr_line_def attrs_def block_def fun_eq_iff)
  qed
  have m: "mset attrs = mset (map snd as)" unfolding attrs_def by simp
  have s: "sorted (map fst attrs)" unfolding attrs_def by (intro sorted_pairs_fst) simp
  have "mset (map fst attrs) = mset (map fst (map snd as))"
    using m by (metis mset_map)
  then have d: "distinct (map fst attrs)"
    using assms(8) by (metis mset_eq_imp_distinct_iff)
  have step: "prettify_lines (line # lines) out = prettify_lines lines (out @ block)" for lines out
    using out by simp
  have doc: "prettify (pre @ line # post) = prettify_lines post (printed @ block) \<and>
      (\<exists>more err. prettify (pre @ line # post) = (printed @ block @ more, err))"
    if "prettify pre = (printed, None)" for pre printed post
  proof -
    have "prettify_lines pre [] = (printed, None)" using that by (simp add: prettify_def)
    from prettify_lines_append[OF this, of "line # post"]
    have a: "prettify (pre @ line # post) = prettify_lines post (printed @ block)"
      using step by (simp add: prettify_def)
    obtain more err where "prettify_lines post (printed @ block) = ((printed @ block) @ more, err)"
      using prettify_lines_extends by blast
    then have "prettify (pre @ line # post) = (printed @ block @ more, err)" using a by simp
    with a show ?thesis by blast
  qed
  from out m s d step doc show ?thesis by blast
qed

theorem prettify_tag_line_witness:
  "prettify_line ''<foo b=\"2\" a=\"1\"/>'' =
     Inr [''<foo'', ''  a=\"1\"'', ''  b=\"2\"'', ''></foo>''] \<and>
   prettify [''<Folder>'', ''  <foo b=\"2\" a=\"1\"/>'', ''</Folder>''] =
     ([''<Folder>'', ''  <foo'', ''    a=\"1\"'', ''    b=\"2\"'', ''  ></foo>'', ''</Folder>''], None)"
proof -
  have srt: "sort [(''b'', ''2''), (''a'', ''1'')] = [(''a'', ''1''), (''b'', ''2'')]"
    by (simp add: less_eq_prod_def)
  have "prettify_line ([] @ ''<'' @ ''foo'' @ [CHR '' ''] @
      attrs_text [([], ''b'', ''2''), ('' '', ''a'', ''1'')] [] True @ []) =
    Inr ([[] @ ''<'' @ ''foo''] @
         map (\<lambda>a. [] @ ''  '' @ fst a @ ''=\"'' @ snd a @ ''\"'')
           (sort (map snd [([], ''b'', ''2''), ('' '', ''a'', ''1'')])) @
         [[] @ (if True then ''></'' @ ''foo'' @ ''>'' else ''>'')])"
    using prettify_tag_line[of "[]" "''foo''" "CHR '' ''" "[([], ''b'', ''2''), ('' '', ''a'', ''1'')]"
        "[]" "[]" True]
    by (simp add: wf_attr_def is_space_def is_word_def latin1_word_chars_def is_tag_char_def)
  then have one: "prettify_line ''<foo b=\"2\" a=\"1\"/>'' =
     Inr [''<foo'', ''  a=\"1\"'', ''  b=\"2\"'', ''></foo>'']"
    using srt by (simp add: closing_def)
  have pre: "prettify [''<Folder>''] = ([''<Folder>''], None)" by (simp add: prettify_eval)
  have "\<forall>pre printed post. prettify pre = (printed, None) \<longrightarrow>
      prettify (pre @ (''  '' @ ''<'' @ ''foo'' @ [CHR '' ''] @
        attrs_text [([], ''b'', ''2''), ('' '', ''a'', ''1'')] [] True @ []) # post) =
      prettify_lines post (printed @ ([''  '' @ ''<'' @ ''foo''] @
         map (\<lambda>a. ''  '' @ ''  '' @ fst a @ ''=\"'' @ snd a @ ''\"'')
           (sort (map snd [([], ''b'', ''2''), ('' '', ''a'', ''1'')])) @
         [''  '' @ (if True then ''></'' @ ''foo'' @ ''>'' else ''>'')]))"
    using prettify_tag_line[of "''  ''" "''foo''" "CHR '' ''" "[([], ''b'', ''2''), ('' '', ''a'', ''1'')]"
        "[]" "[]" True]
    by (simp add: wf_attr_def is_space_def is_word_def latin1_word_chars_def is_tag_char_def)
  from this[rule_format, OF pre, of "[''</Folder>'']"]
  have "prettify [''<Folder>'', ''  <foo b=\"2\" a=\"1\"/>'', ''</Folder>''] =
     prettify_lines [''</Folder>''] ([''<Folder>''] @ [''  <foo'', ''    a=\"1\"'', ''    b=\"2\"'', ''  ></foo>''])"
    using srt by (simp add: closing_def)
  also have "\<dots> = ([''<Folder>'', ''  <foo'', ''    a=\"1\"'', ''    b=\"2\"'', ''  ></foo>'', ''</Folder>''], None)"
    by (simp add: prettify_eval)
  finally show ?thesis using one by simp
qed


text \<open>
  C9. When a line matches the opening-tag pattern and the rest of it, stripped of trailing
  white space, is not a sequence of well-formed attributes with distinct names followed by
  an ending marker, the assertion fails: nothing is printed for the line, and
  \<^verbatim>\<open>prettify\<close> stops with what it printed for the lines before. The witness has a
  value with an unescaped double quote and a tag with the same attribute name twice.
\<close>

theorem prettify_malformed:
  assumes st: "start_attr_tag line = Some (indent, tag, rest)"
    and bad: "\<not> (\<exists>as ws se. list_all wf_attr as \<and> list_all is_space ws \<and>
      distinct (map fst (map snd as)) \<and> rstrip rest = attrs_text as ws se)"
  shows "prettify_line line = Inl AssertionError \<and>
         (\<forall>lines out. prettify_lines (line # lines) out = (out, Some AssertionError)) \<and>
         (\<forall>pre printed post. prettify pre = (printed, None) \<longrightarrow>
            prettify (pre @ line # post) = (printed, Some AssertionError))"
proof -
  have "chomp (rstrip rest) [] \<noteq> Inr (r, se)" for r se
  proof
    assume "chomp (rstrip rest) [] = Inr (r, se)"
    from chomp_InrD[OF this]
    obtain as ws e where p: "list_all wf_attr as" "list_all is_space ws" "at_end e"
      "rstrip rest = attrs_text as ws se @ e" "distinct (map fst (map snd as))" by auto
    have "e = []"
    proof (rule ccontr)
      assume "e \<noteq> []"
      then have e: "e = [CHR 0x0A]" using p(3) by (simp add: at_end_def)
      then have "last (rstrip rest) = CHR 0x0A" "rstrip rest \<noteq> []" using p(4) by simp_all
      then show False using rstrip_no_trailing_space[of rest] by (simp add: special_chars)
    qed
    then have "rstrip rest = attrs_text as ws se" using p(4) by simp
    with bad p show False by blast
  qed
  then obtain e where "chomp (rstrip rest) [] = Inl e"
    by (cases "chomp (rstrip rest) []") auto
  then have "chomp (rstrip rest) [] = Inl AssertionError" using chomp_InlD by blast
  then have l: "prettify_line line = Inl AssertionError"
    using st by (simp add: prettify_line_def bind_err_def)
  then have a: "\<forall>lines out. prettify_lines (line # lines) out = (out, Some AssertionError)"
    by simp
  have "prettify (pre @ line # post) = (printed, Some AssertionError)"
    if "prettify pre = (printed, None)" for pre printed post
  proof -
    have "prettify_lines pre [] = (printed, None)" using that by (simp add: prettify_def)
    from prettify_lines_append[OF this, of "line # post"] show ?thesis
      using l by (simp add: prettify_def)
  qed
  with l a show ?thesis by blast
qed

theorem prettify_malformed_witness:
  "prettify_line ''<foo a=\"x\"y\" />'' = Inl AssertionError \<and>
   prettify_line ''  <foo a=\"1\" a=\"2\"/>'' = Inl AssertionError \<and>
   prettify [''<a>'', ''  <foo a=\"1\" a=\"2\"/>'', ''</a>''] = ([''<a>''], Some AssertionError)"
proof -
  note n1 = chomp_no_parse[OF malformed_examples(1)]
  note n2 = chomp_no_parse[OF malformed_examples(2)]
  note t1 = prettify_malformed[OF malformed_examples(3) n1]
  note t2 = prettify_malformed[OF malformed_examples(4) n2]
  have p: "prettify [''<a>''] = ([''<a>''], None)" by (simp add: prettify_eval)
  have "prettify ([''<a>''] @ ''  <foo a=\"1\" a=\"2\"/>'' # [''</a>'']) =
      ([''<a>''], Some AssertionError)"
    using t2 p by blast
  then show ?thesis using t1 t2 by simp
qed


section \<open>Properties of \<^verbatim>\<open>PlaceDatabase.rewrite\<close>\<close>

subsection \<open>The comparison of keys\<close>

lemma item_lt_trans:
  assumes "item_lt x y = Inr True" and "item_lt y z = Inr True"
  shows "item_lt x z = Inr True"
  using assms by (cases x; cases y; cases z) auto

lemma item_lt_asym:
  assumes "item_lt x y = Inr True"
  shows "item_lt y x = Inr False"
  using assms by (cases x; cases y) auto

lemma item_lt_irrefl: "item_lt x x \<noteq> Inr True"
  by (cases x) auto

lemma item_lt_neq: "item_lt x y = Inr True \<Longrightarrow> x \<noteq> y"
  using item_lt_irrefl by auto

lemma tuple_lt_asym:
  "tuple_lt a b = Inr True \<Longrightarrow> tuple_lt b a = Inr False"
proof (induction a b rule: tuple_lt.induct)
  case (4 x xs y ys)
  then show ?case by (auto simp: item_lt_asym split: if_splits)
qed simp_all

lemma tuple_lt_trans:
  "tuple_lt a b = Inr True \<Longrightarrow> tuple_lt b c = Inr True \<Longrightarrow> tuple_lt a c = Inr True"
proof (induction a b arbitrary: c rule: tuple_lt.induct)
  case 1
  then show ?case by simp
next
  case (2 y ys)
  then show ?case by (cases c) simp_all
next
  case (3 x xs)
  then show ?case by simp
next
  case (4 x xs y ys)
  show ?case
  proof (cases c)
    case Nil
    then show ?thesis using 4 by simp
  next
    case (Cons z zs)
    show ?thesis
    proof (cases "x = y")
      case True
      note xy = True
      show ?thesis
      proof (cases "y = z")
        case True
        then show ?thesis using 4 xy Cons by simp
      next
        case False
        then show ?thesis using 4 xy Cons by simp
      qed
    next
      case False
      note xy = False
      then have a: "item_lt x y = Inr True" using "4.prems"(1) by simp
      show ?thesis
      proof (cases "y = z")
        case True
        then show ?thesis using a xy Cons by simp
      next
        case False
        then have b: "item_lt y z = Inr True" using "4.prems"(2) Cons by simp
        have c: "item_lt x z = Inr True" using a b by (rule item_lt_trans)
        then have "x \<noteq> z" by (rule item_lt_neq)
        then show ?thesis using c Cons by simp
      qed
    qed
  qed
qed

subsection \<open>\<^verbatim>\<open>sorted\<close> leaves no inversion\<close>

lemma insert_by_key_set:
  "insert_by_key x ys = Inr r \<Longrightarrow> set r = insert x (set ys)"
proof (induction ys arbitrary: r)
  case Nil
  then show ?case by auto
next
  case (Cons y ys)
  show ?case
  proof (cases "tuple_lt (fst x) (fst y)")
    case (Inl e)
    then show ?thesis using Cons.prems by (simp add: bind_err_def)
  next
    case (Inr b)
    show ?thesis
    proof (cases b)
      case True
      then show ?thesis using Cons.prems Inr by (auto simp: bind_err_def)
    next
      case False
      then obtain r' where r': "insert_by_key x ys = Inr r'" "r = y # r'"
        using Cons.prems Inr by (cases "insert_by_key x ys") (auto simp: bind_err_def)
      from Cons.IH[OF r'(1)] show ?thesis using r'(2) by auto
    qed
  qed
qed

lemma insert_by_key_sorted:
  assumes "sorted_wrt no_inversion ys" and "insert_by_key x ys = Inr r"
  shows "sorted_wrt no_inversion r"
  using assms
proof (induction ys arbitrary: r)
  case Nil
  then show ?case by auto
next
  case (Cons y ys)
  have s: "sorted_wrt no_inversion ys" and yz: "\<forall>z \<in> set ys. no_inversion y z"
    using Cons.prems(1) by simp_all
  show ?case
  proof (cases "tuple_lt (fst x) (fst y)")
    case (Inl e)
    then show ?thesis using Cons.prems by (simp add: bind_err_def)
  next
    case (Inr b)
    show ?thesis
    proof (cases b)
      case True
      then have lt: "tuple_lt (fst x) (fst y) = Inr True" using Inr by simp
      have r: "r = x # y # ys" using Cons.prems(2) lt by (simp add: bind_err_def)
      have xy: "no_inversion x y"
        using tuple_lt_asym[OF lt] by (simp add: no_inversion_def)
      have "no_inversion x z" if "z \<in> set ys" for z
      proof -
        have "tuple_lt (fst z) (fst x) \<noteq> Inr True"
        proof
          assume "tuple_lt (fst z) (fst x) = Inr True"
          then have "tuple_lt (fst z) (fst y) = Inr True" using lt by (rule tuple_lt_trans)
          then show False using yz that by (simp add: no_inversion_def)
        qed
        then show ?thesis by (simp add: no_inversion_def)
      qed
      then show ?thesis using r xy Cons.prems(1) by simp
    next
      case False
      then have nlt: "tuple_lt (fst x) (fst y) = Inr False" using Inr by simp
      obtain r' where r': "insert_by_key x ys = Inr r'" "r = y # r'"
        using Cons.prems(2) nlt by (cases "insert_by_key x ys") (auto simp: bind_err_def)
      have sr: "sorted_wrt no_inversion r'" using Cons.IH[OF s r'(1)] .
      have "set r' = insert x (set ys)" using r'(1) by (rule insert_by_key_set)
      moreover have "no_inversion y x" using nlt by (simp add: no_inversion_def)
      ultimately have "\<forall>z \<in> set r'. no_inversion y z" using yz by simp
      then show ?thesis using sr r'(2) by simp
    qed
  qed
qed

lemma sort_pairs_sorted:
  assumes "sorted_wrt no_inversion acc" and "sort_pairs acc xs = Inr r"
  shows "sorted_wrt no_inversion r \<and> set r = set acc \<union> set xs"
  using assms
proof (induction xs arbitrary: acc)
  case Nil
  then show ?case by simp
next
  case (Cons x xs)
  obtain acc' where a: "insert_by_key x acc = Inr acc'" "sort_pairs acc' xs = Inr r"
    using Cons.prems(2) by (cases "insert_by_key x acc") (auto simp: bind_err_def)
  have "sorted_wrt no_inversion acc'" using Cons.prems(1) a(1) by (rule insert_by_key_sorted)
  from Cons.IH[OF this a(2)] insert_by_key_set[OF a(1)] show ?case by auto
qed

lemma map_err_Inr:
  "map_err f xs = Inr ks \<Longrightarrow> length ks = length xs \<and> (\<forall>p \<in> set (zip ks xs). f (snd p) = Inr (fst p))"
proof (induction xs arbitrary: ks)
  case Nil
  then show ?case by simp
next
  case (Cons x xs)
  obtain k where k: "f x = Inr k" using Cons.prems by (cases "f x") (auto simp: bind_err_def)
  obtain ks' where ks': "map_err f xs = Inr ks'" "ks = k # ks'"
    using Cons.prems k by (cases "map_err f xs") (auto simp: bind_err_def)
  from Cons.IH[OF ks'(1)] show ?case using k ks'(2) by auto
qed

lemma sorted_by_key_Inr:
  assumes "sorted_by_key f xs = Inr l"
  shows "\<exists>ps. l = map snd ps \<and> sorted_wrt no_inversion ps \<and>
           (\<forall>p \<in> set ps. f (snd p) = Inr (fst p)) \<and> set l = set xs"
proof -
  obtain ks where ks: "map_err f xs = Inr ks"
    using assms by (cases "map_err f xs") (auto simp: sorted_by_key_def bind_err_def)
  obtain ps where ps: "sort_pairs [] (zip ks xs) = Inr ps" "l = map snd ps"
    using assms ks by (cases "sort_pairs [] (zip ks xs)") (auto simp: sorted_by_key_def bind_err_def)
  have "sorted_wrt no_inversion ([] :: (pyval list \<times> 'a) list)" by simp
  from sort_pairs_sorted[OF this ps(1)]
  have s: "sorted_wrt no_inversion ps" and st: "set ps = set (zip ks xs)" by simp_all
  have len: "length ks = length xs" and keys: "\<forall>p \<in> set (zip ks xs). f (snd p) = Inr (fst p)"
    using map_err_Inr[OF ks] by simp_all
  have "set l = snd ` set (zip ks xs)" using ps(2) st by simp
  also have "\<dots> = set (map snd (zip ks xs))" by simp
  also have "\<dots> = set xs" using len by simp
  finally have "set l = set xs" .
  with ps(2) s keys st show ?thesis by auto
qed

lemma sorted_by_key_order:
  assumes "sorted_by_key f xs = Inr l" and "i < j" and "j < length l"
  shows "\<exists>ki kj. f (l ! i) = Inr ki \<and> f (l ! j) = Inr kj \<and> tuple_lt kj ki \<noteq> Inr True"
proof -
  obtain ps where ps: "l = map snd ps" "sorted_wrt no_inversion ps"
    "\<forall>p \<in> set ps. f (snd p) = Inr (fst p)"
    using sorted_by_key_Inr[OF assms(1)] by blast
  have len: "j < length ps" "i < length ps" using assms(2,3) ps(1) by simp_all
  have "no_inversion (ps ! i) (ps ! j)"
    using ps(2) assms(2) len by (simp add: sorted_wrt_iff_nth_less)
  then have "tuple_lt (fst (ps ! j)) (fst (ps ! i)) \<noteq> Inr True" by (simp add: no_inversion_def)
  moreover have "f (l ! i) = Inr (fst (ps ! i))" "f (l ! j) = Inr (fst (ps ! j))"
    using ps(1,3) len by simp_all
  ultimately show ?thesis by blast
qed

subsection \<open>The key of the source and the key with whole URLs\<close>

lemma chars_lt:
  assumes "\<not> strict_prefix s t" and "\<not> strict_prefix t s"
  shows "tuple_lt (map (\<lambda>c. PStr [c]) s @ r) (map (\<lambda>c. PStr [c]) t @ r') =
    (if s = t then tuple_lt r r' else Inr (s < t))"
  using assms
proof (induction s arbitrary: t)
  case Nil
  then have "t = []" by (cases t) simp_all
  then show ?case by simp
next
  case (Cons x xs)
  show ?case
  proof (cases t)
    case Nil
    then show ?thesis using Cons.prems by simp
  next
    case (Cons y ys)
    show ?thesis
    proof (cases "x = y")
      case True
      then have "\<not> strict_prefix xs ys" "\<not> strict_prefix ys xs"
        using Cons.prems Cons by simp_all
      from Cons.IH[OF this] show ?thesis using True Cons by simp
    next
      case False
      then show ?thesis using Cons by auto
    qed
  qed
qed

lemma whole_lt:
  "tuple_lt (PStr s # r) (PStr t # r') = (if s = t then tuple_lt r r' else Inr (s < t))"
  by simp

lemma aligned_parts:
  assumes "aligned a b f" and "tuple_lt r r' = tuple_lt w w'"
  shows "\<exists>ca cb. url_part a f = Inr ca \<and> url_part b f = Inr cb \<and>
    tuple_lt (ca @ r) (cb @ r') = tuple_lt (whole_url_part a f @ w) (whole_url_part b f @ w')"
proof (cases "dict_get a f = PNone \<and> dict_get b f = PNone")
  case True
  then show ?thesis using assms(2) by (simp add: url_part_def whole_url_part_def)
next
  case False
  then obtain s t where st: "dict_get a f = PStr s" "dict_get b f = PStr t"
    "\<not> strict_prefix s t" "\<not> strict_prefix t s"
    using assms(1) by (auto simp: aligned_def)
  have "url_part a f = Inr (map (\<lambda>c. PStr [c]) s)" "url_part b f = Inr (map (\<lambda>c. PStr [c]) t)"
    using st(1,2) by (simp_all add: url_part_def iter_items_def)
  moreover have "whole_url_part a f = [PStr s]" "whole_url_part b f = [PStr t]"
    using st(1,2) by (simp_all add: whole_url_part_def)
  moreover have "tuple_lt (map (\<lambda>c. PStr [c]) s @ r) (map (\<lambda>c. PStr [c]) t @ r') =
      tuple_lt (PStr s # w) (PStr t # w')"
    unfolding chars_lt[OF st(3,4)] whole_lt using assms(2) by simp
  ultimately show ?thesis by simp
qed

lemma amended_sortkey_Inr:
  assumes "amended_sortkey i = Inr k"
  shows "\<exists>k4 k5 n. pair_part i ''dec_deg'' ''ra_hr'' = Inr k4 \<and>
    pair_part i ''latitude'' ''longitude'' = Inr k5 \<and>
    dict_item i ''name'' = Inr n \<and>
    k = whole_url_part i ''foreground_image_set_url'' @ whole_url_part i ''image_set_url'' @
        whole_url_part i ''background_image_set_url'' @ k4 @ k5 @ [n]"
proof -
  obtain k4 where k4: "pair_part i ''dec_deg'' ''ra_hr'' = Inr k4"
    using assms by (cases "pair_part i ''dec_deg'' ''ra_hr''") (auto simp: amended_sortkey_def bind_err_def)
  obtain k5 where k5: "pair_part i ''latitude'' ''longitude'' = Inr k5"
    using assms k4
    by (cases "pair_part i ''latitude'' ''longitude''") (auto simp: amended_sortkey_def bind_err_def)
  obtain n where n: "dict_item i ''name'' = Inr n"
    using assms k4 k5 by (cases "dict_item i ''name''") (auto simp: amended_sortkey_def bind_err_def)
  have "k = whole_url_part i ''foreground_image_set_url'' @ whole_url_part i ''image_set_url'' @
        whole_url_part i ''background_image_set_url'' @ k4 @ k5 @ [n]"
    using assms k4 k5 n by (simp add: amended_sortkey_def bind_err_def)
  with k4 k5 n show ?thesis by blast
qed

lemma sortkey_rest_Inr:
  assumes "sortkey i = Inr k"
  shows "\<exists>k'. amended_sortkey i = Inr k'"
proof -
  obtain k1 where k1: "url_part i ''foreground_image_set_url'' = Inr k1"
    using assms by (cases "url_part i ''foreground_image_set_url''") (auto simp: sortkey_def bind_err_def)
  obtain k2 where k2: "url_part i ''image_set_url'' = Inr k2"
    using assms k1 by (cases "url_part i ''image_set_url''") (auto simp: sortkey_def bind_err_def)
  obtain k3 where k3: "url_part i ''background_image_set_url'' = Inr k3"
    using assms k1 k2
    by (cases "url_part i ''background_image_set_url''") (auto simp: sortkey_def bind_err_def)
  obtain k4 where k4: "pair_part i ''dec_deg'' ''ra_hr'' = Inr k4"
    using assms k1 k2 k3
    by (cases "pair_part i ''dec_deg'' ''ra_hr''") (auto simp: sortkey_def bind_err_def)
  obtain k5 where k5: "pair_part i ''latitude'' ''longitude'' = Inr k5"
    using assms k1 k2 k3 k4
    by (cases "pair_part i ''latitude'' ''longitude''") (auto simp: sortkey_def bind_err_def)
  obtain n where n: "dict_item i ''name'' = Inr n"
    using assms k1 k2 k3 k4 k5 by (cases "dict_item i ''name''") (auto simp: sortkey_def bind_err_def)
  show ?thesis using k4 k5 n by (simp add: amended_sortkey_def bind_err_def)
qed

lemma sortkey_amended:
  assumes ka: "amended_sortkey a = Inr wa" and kb: "amended_sortkey b = Inr wb"
    and a1: "aligned a b ''foreground_image_set_url''"
    and a2: "aligned a b ''image_set_url''"
    and a3: "aligned a b ''background_image_set_url''"
  shows "\<exists>ka kb. sortkey a = Inr ka \<and> sortkey b = Inr kb \<and> tuple_lt ka kb = tuple_lt wa wb"
proof -
  obtain a4 a5 an where ta: "pair_part a ''dec_deg'' ''ra_hr'' = Inr a4"
    "pair_part a ''latitude'' ''longitude'' = Inr a5"
    "dict_item a ''name'' = Inr an"
    "wa = whole_url_part a ''foreground_image_set_url'' @ whole_url_part a ''image_set_url'' @
        whole_url_part a ''background_image_set_url'' @ a4 @ a5 @ [an]"
    using amended_sortkey_Inr[OF ka] by blast
  obtain b4 b5 bn where tb: "pair_part b ''dec_deg'' ''ra_hr'' = Inr b4"
    "pair_part b ''latitude'' ''longitude'' = Inr b5"
    "dict_item b ''name'' = Inr bn"
    "wb = whole_url_part b ''foreground_image_set_url'' @ whole_url_part b ''image_set_url'' @
        whole_url_part b ''background_image_set_url'' @ b4 @ b5 @ [bn]"
    using amended_sortkey_Inr[OF kb] by blast
  let ?ra = "a4 @ a5 @ [an]" and ?rb = "b4 @ b5 @ [bn]"
  have "tuple_lt ?ra ?rb = tuple_lt ?ra ?rb" by simp
  from aligned_parts[OF a3 this]
  obtain c3 d3 where p3: "url_part a ''background_image_set_url'' = Inr c3"
    "url_part b ''background_image_set_url'' = Inr d3"
    "tuple_lt (c3 @ ?ra) (d3 @ ?rb) =
      tuple_lt (whole_url_part a ''background_image_set_url'' @ ?ra)
        (whole_url_part b ''background_image_set_url'' @ ?rb)" by blast
  from aligned_parts[OF a2 p3(3)]
  obtain c2 d2 where p2: "url_part a ''image_set_url'' = Inr c2"
    "url_part b ''image_set_url'' = Inr d2"
    "tuple_lt (c2 @ c3 @ ?ra) (d2 @ d3 @ ?rb) =
      tuple_lt (whole_url_part a ''image_set_url'' @ whole_url_part a ''background_image_set_url'' @ ?ra)
        (whole_url_part b ''image_set_url'' @ whole_url_part b ''background_image_set_url'' @ ?rb)"
    by blast
  from aligned_parts[OF a1 p2(3)]
  obtain c1 d1 where p1: "url_part a ''foreground_image_set_url'' = Inr c1"
    "url_part b ''foreground_image_set_url'' = Inr d1"
    "tuple_lt (c1 @ c2 @ c3 @ ?ra) (d1 @ d2 @ d3 @ ?rb) = tuple_lt wa wb"
    unfolding ta(4) tb(4) by blast
  have "sortkey a = Inr (c1 @ c2 @ c3 @ ?ra)"
    using p1(1) p2(1) p3(1) ta(1-3) by (simp add: sortkey_def bind_err_def)
  moreover have "sortkey b = Inr (d1 @ d2 @ d3 @ ?rb)"
    using p1(2) p2(2) p3(2) tb(1-3) by (simp add: sortkey_def bind_err_def)
  ultimately show ?thesis using p1(3) by simp
qed

subsection \<open>Runs of \<^verbatim>\<open>PlaceDatabase.rewrite\<close>\<close>

lemma write_place_shards_dirs:
  "write_place_shards env g s = (r, t) \<Longrightarrow> db_dir t = db_dir s \<and> old_dir t = old_dir s"
proof (induction g arbitrary: s)
  case Nil
  then show ?case by simp
next
  case (Cons a g)
  obtain k xs where a: "a = (k, xs)" by (cases a)
  show ?case
  proof (cases "sorted_by_key sortkey xs")
    case (Inl e)
    then show ?thesis using Cons.prems a by simp
  next
    case (Inr l)
    show ?thesis
    proof (cases "write_new env (k @ ''.yml'') l s")
      case Inl': (Inl e)
      then show ?thesis using Cons.prems a Inr by simp
    next
      case Inr': (Inr s')
      then have "db_dir s' = db_dir s" "old_dir s' = old_dir s"
        by (auto simp: write_new_def split: option.splits if_splits)
      moreover have "write_place_shards env g s' = (r, t)" using Cons.prems a Inr Inr' by simp
      ultimately show ?thesis using Cons.IH by metis
    qed
  qed
qed

lemma write_place_shards_None:
  assumes "write_place_shards env g s = (None, t)"
  shows "(\<forall>p \<in> set g. \<exists>l. sorted_by_key sortkey (snd p) = Inr l) \<and>
         (\<forall>f l. new_dir t = Some d \<and> d f = Some l \<longrightarrow>
            (\<exists>d0. new_dir s = Some d0 \<and> d0 f = Some l) \<or>
            (\<exists>xs. sorted_by_key sortkey xs = Inr l))"
  using assms
proof (induction g arbitrary: s)
  case Nil
  then show ?case by auto
next
  case (Cons a g)
  obtain k xs where a: "a = (k, xs)" by (cases a)
  obtain l where l: "sorted_by_key sortkey xs = Inr l"
    using Cons.prems a by (cases "sorted_by_key sortkey xs") auto
  obtain s' where s': "write_new env (k @ ''.yml'') l s = Inr s'"
    using Cons.prems a l by (cases "write_new env (k @ ''.yml'') l s") auto
  have rec: "write_place_shards env g s' = (None, t)" using Cons.prems a l s' by simp
  obtain d0 where d0: "new_dir s = Some d0" "new_dir s' = Some (d0(k @ ''.yml'' \<mapsto> l))"
    using s' by (auto simp: write_new_def split: option.splits if_splits)
  note ih = Cons.IH[OF rec]
  have "\<forall>p \<in> set (a # g). \<exists>l. sorted_by_key sortkey (snd p) = Inr l"
    using ih a l by auto
  moreover have "(\<exists>d0. new_dir s = Some d0 \<and> d0 f = Some l') \<or>
      (\<exists>xs. sorted_by_key sortkey xs = Inr l')"
    if "new_dir t = Some d \<and> d f = Some l'" for f l'
  proof -
    from ih that have "(\<exists>d1. new_dir s' = Some d1 \<and> d1 f = Some l') \<or>
      (\<exists>xs. sorted_by_key sortkey xs = Inr l')" by blast
    then show ?thesis
    proof
      assume "\<exists>d1. new_dir s' = Some d1 \<and> d1 f = Some l'"
      then have "(d0(k @ ''.yml'' \<mapsto> l)) f = Some l'" using d0(2) by simp
      then show ?thesis using d0(1) l by (cases "f = k @ ''.yml''") auto
    qed blast
  qed
  ultimately show ?case by blast
qed

lemma group_add_members:
  "(\<Union>p \<in> set (group_add k x g). set (snd p)) = insert x (\<Union>p \<in> set g. set (snd p))"
proof (induction g)
  case Nil
  then show ?case by simp
next
  case (Cons a g)
  obtain k' xs where a: "a = (k', xs)" by (cases a)
  show ?case using Cons.IH by (cases "k = k'") (auto simp: a)
qed

lemma place_groups_members:
  "place_groups infos g = Inr g' \<Longrightarrow>
     (\<Union>p \<in> set g'. set (snd p)) = (\<Union>p \<in> set g. set (snd p)) \<union> set infos"
proof (induction infos arbitrary: g)
  case Nil
  then show ?case by simp
next
  case (Cons i infos)
  obtain k where k: "place_key i = Inr k"
    using Cons.prems by (cases "place_key i") (auto simp: bind_err_def)
  then have "place_groups infos (group_add k i g) = Inr g'"
    using Cons.prems by (simp add: bind_err_def)
  from Cons.IH[OF this] show ?case by (simp add: group_add_members)
qed

lemma sorted_by_key_keys:
  assumes "sorted_by_key f xs = Inr l" and "x \<in> set xs"
  shows "\<exists>k. f x = Inr k"
proof -
  obtain ps where "l = map snd ps" "\<forall>p \<in> set ps. f (snd p) = Inr (fst p)" "set l = set xs"
    using sorted_by_key_Inr[OF assms(1)] by blast
  then show ?thesis using assms(2) by force
qed

lemma place_rewrite_None:
  assumes "place_rewrite env infos s = (None, t)"
  shows "(\<forall>i \<in> set infos. \<exists>k. sortkey i = Inr k) \<and>
         (\<exists>d. db_dir t = Some d \<and> (\<forall>f l. d f = Some l \<longrightarrow> (\<exists>xs. sorted_by_key sortkey xs = Inr l)))"
proof -
  obtain g where g: "place_groups infos [] = Inr g"
    using assms by (cases "place_groups infos []") (auto simp: place_rewrite_def)
  obtain s1 where s1: "mkdir_new env s = Inr s1"
    using assms g by (cases "mkdir_new env s") (auto simp: place_rewrite_def)
  then have n1: "new_dir s1 = Some Map.empty"
    by (auto simp: mkdir_new_def split: if_splits)
  obtain s2 where s2: "write_place_shards env g s1 = (None, s2)" "swap_dirs env s2 = (None, t)"
    using assms g s1
    by (cases "write_place_shards env g s1") (auto simp: place_rewrite_def split: option.splits)
  have sw: "db_dir t = new_dir s2" "new_dir s2 \<noteq> None"
    using s2(2) by (auto simp: swap_dirs_def Let_def split: if_splits)
  then obtain d where d: "new_dir s2 = Some d" by auto
  from write_place_shards_None[OF s2(1), of d]
  have all: "\<forall>p \<in> set g. \<exists>l. sorted_by_key sortkey (snd p) = Inr l"
    and files: "\<forall>f l. d f = Some l \<longrightarrow> (\<exists>xs. sorted_by_key sortkey xs = Inr l)"
    using d n1 by auto
  have "\<exists>k. sortkey i = Inr k" if "i \<in> set infos" for i
  proof -
    have "i \<in> (\<Union>p \<in> set g. set (snd p))" using place_groups_members[OF g] that by simp
    then obtain p where p: "p \<in> set g" "i \<in> set (snd p)" by auto
    then obtain l where "sorted_by_key sortkey (snd p) = Inr l" using all by blast
    then show ?thesis using p(2) by (rule sorted_by_key_keys)
  qed
  then show ?thesis using sw(1) d files by auto
qed

lemma lacks_partner_sortkey:
  assumes "lacks_partner i"
  shows "\<not> (\<exists>k. sortkey i = Inr k)"
proof
  assume "\<exists>k. sortkey i = Inr k"
  then obtain k where "sortkey i = Inr k" by blast
  from sortkey_rest_Inr[OF this] obtain k' where "amended_sortkey i = Inr k'" by blast
  from amended_sortkey_Inr[OF this]
  obtain k4 k5 where "pair_part i ''dec_deg'' ''ra_hr'' = Inr k4"
    "pair_part i ''latitude'' ''longitude'' = Inr k5" by blast
  then show False
    using assms by (auto simp: lacks_partner_def pair_part_def dict_item_def bind_err_def Let_def
        split: if_splits option.splits)
qed

lemma bind_simps:
  "bind_err (Inl e) f = Inl e"
  "bind_err (Inr x) f = f x"
  by (simp_all add: bind_err_def)

lemma pair_part_error: "pair_part i f g = Inl e \<Longrightarrow> e = KeyError"
  by (auto simp: pair_part_def dict_item_def bind_err_def Let_def split: if_splits option.splits)

lemma dict_item_error: "dict_item i f = Inl e \<Longrightarrow> e = KeyError"
  by (auto simp: dict_item_def split: option.splits)

lemma url_ok_part: "url_ok i f \<Longrightarrow> \<exists>k. url_part i f = Inr k"
  by (auto simp: url_ok_def url_part_def iter_items_def)

lemma urls_ok_sortkey_error:
  assumes "urls_ok i" and "sortkey i = Inl e"
  shows "e = KeyError"
proof -
  have u: "url_ok i ''foreground_image_set_url''" "url_ok i ''image_set_url''"
    "url_ok i ''background_image_set_url''"
    using assms(1) unfolding urls_ok_def by simp_all
  from url_ok_part[OF u(1)] obtain k1 where k1: "url_part i ''foreground_image_set_url'' = Inr k1" ..
  from url_ok_part[OF u(2)] obtain k2 where k2: "url_part i ''image_set_url'' = Inr k2" ..
  from url_ok_part[OF u(3)] obtain k3 where k3: "url_part i ''background_image_set_url'' = Inr k3" ..
  note k = k1 k2 k3
  have s: "sortkey i =
      bind_err (pair_part i ''dec_deg'' ''ra_hr'') (\<lambda>k4.
      bind_err (pair_part i ''latitude'' ''longitude'') (\<lambda>k5.
      bind_err (dict_item i ''name'') (\<lambda>n.
      Inr (k1 @ k2 @ k3 @ k4 @ k5 @ [n]))))"
    unfolding sortkey_def k by (simp only: bind_simps)
  show ?thesis
  proof (cases "pair_part i ''dec_deg'' ''ra_hr''")
    case (Inl e4)
    then have "e = e4" using assms(2) unfolding s Inl by (simp only: bind_simps sum.inject)
    then show ?thesis using pair_part_error[OF Inl] by simp
  next
    case k4: (Inr k4)
    show ?thesis
    proof (cases "pair_part i ''latitude'' ''longitude''")
      case (Inl e5)
      then have "e = e5" using assms(2) unfolding s k4 Inl by (simp only: bind_simps sum.inject)
      then show ?thesis using pair_part_error[OF Inl] by simp
    next
      case k5: (Inr k5)
      show ?thesis
      proof (cases "dict_item i ''name''")
        case (Inl en)
        then have "e = en" using assms(2) unfolding s k4 k5 Inl by (simp only: bind_simps sum.inject)
        then show ?thesis using dict_item_error[OF Inl] by simp
      next
        case (Inr n)
        then show ?thesis using assms(2) unfolding s k4 k5 Inr by (simp only: bind_simps sum.distinct)
      qed
    qed
  qed
qed

lemma map_err_first_error:
  assumes "\<forall>x \<in> set xs. \<forall>e. f x = Inl e \<longrightarrow> e = err" and "\<exists>x \<in> set xs. \<forall>k. f x \<noteq> Inr k"
  shows "map_err f xs = Inl err"
  using assms
proof (induction xs)
  case Nil
  then show ?case by simp
next
  case (Cons x xs)
  show ?case
  proof (cases "f x")
    case (Inl e)
    then show ?thesis using Cons.prems(1) by (simp add: bind_err_def)
  next
    case (Inr k)
    then have "\<exists>x \<in> set xs. \<forall>k. f x \<noteq> Inr k" using Cons.prems(2) by auto
    then have "map_err f xs = Inl err" using Cons.IH Cons.prems(1) by simp
    then show ?thesis using Inr by (simp add: bind_err_def)
  qed
qed

subsection \<open>Records that differ in the name only\<close>

lemma aligned_sym: "aligned a b f \<Longrightarrow> aligned b a f"
  by (auto simp: aligned_def)

lemma tuple_lt_common_prefix: "tuple_lt (k @ a) (k @ b) = tuple_lt a b"
  by (induction k) simp_all

lemma same_but_name_keys:
  assumes same: "same_but_name a b"
    and wa: "amended_sortkey a = Inr wa" and wb: "amended_sortkey b = Inr wb"
  shows "\<exists>k na nb. wa = k @ [na] \<and> wb = k @ [nb] \<and>
    dict_item a ''name'' = Inr na \<and> dict_item b ''name'' = Inr nb"
proof -
  have e: "a ''foreground_image_set_url'' = b ''foreground_image_set_url''"
    "a ''image_set_url'' = b ''image_set_url''"
    "a ''background_image_set_url'' = b ''background_image_set_url''"
    "a ''dec_deg'' = b ''dec_deg''" "a ''ra_hr'' = b ''ra_hr''"
    "a ''latitude'' = b ''latitude''" "a ''longitude'' = b ''longitude''"
    using same unfolding same_but_name_def by simp_all
  have u: "whole_url_part a ''foreground_image_set_url'' = whole_url_part b ''foreground_image_set_url''"
    "whole_url_part a ''image_set_url'' = whole_url_part b ''image_set_url''"
    "whole_url_part a ''background_image_set_url'' = whole_url_part b ''background_image_set_url''"
    using e(1,2,3) by (simp_all add: whole_url_part_def dict_get_def)
  have p: "pair_part a ''dec_deg'' ''ra_hr'' = pair_part b ''dec_deg'' ''ra_hr''"
    "pair_part a ''latitude'' ''longitude'' = pair_part b ''latitude'' ''longitude''"
    using e(4,5,6,7) by (simp_all add: pair_part_def dict_get_def dict_item_def Let_def)
  from amended_sortkey_Inr[OF wa]
  obtain a4 a5 an where ta: "pair_part a ''dec_deg'' ''ra_hr'' = Inr a4"
    "pair_part a ''latitude'' ''longitude'' = Inr a5"
    "dict_item a ''name'' = Inr an"
    "wa = whole_url_part a ''foreground_image_set_url'' @ whole_url_part a ''image_set_url'' @
        whole_url_part a ''background_image_set_url'' @ a4 @ a5 @ [an]"
    by (elim exE conjE)
  from amended_sortkey_Inr[OF wb]
  obtain b4 b5 bn where tb: "pair_part b ''dec_deg'' ''ra_hr'' = Inr b4"
    "pair_part b ''latitude'' ''longitude'' = Inr b5"
    "dict_item b ''name'' = Inr bn"
    "wb = whole_url_part b ''foreground_image_set_url'' @ whole_url_part b ''image_set_url'' @
        whole_url_part b ''background_image_set_url'' @ b4 @ b5 @ [bn]"
    by (elim exE conjE)
  have "b4 = a4" using ta(1) tb(1) unfolding p(1) by simp
  moreover have "b5 = a5" using ta(2) tb(2) unfolding p(2) by simp
  ultimately have wb': "wb = (whole_url_part a ''foreground_image_set_url'' @
      whole_url_part a ''image_set_url'' @ whole_url_part a ''background_image_set_url'' @
      a4 @ a5) @ [bn]"
    unfolding tb(4) u by simp
  have wa': "wa = (whole_url_part a ''foreground_image_set_url'' @
      whole_url_part a ''image_set_url'' @ whole_url_part a ''background_image_set_url'' @
      a4 @ a5) @ [an]"
    unfolding ta(4) by simp
  show ?thesis
    apply (rule exI[of _ "whole_url_part a ''foreground_image_set_url'' @
      whole_url_part a ''image_set_url'' @ whole_url_part a ''background_image_set_url'' @
      a4 @ a5"])
    apply (rule exI[of _ an])
    apply (rule exI[of _ bn])
    apply (intro conjI)
       apply (rule wa')
      apply (rule wb')
     apply (rule ta(3))
    apply (rule tb(3))
    done
qed

subsection \<open>Evaluated examples\<close>

lemmas place_eval = place_p_def place_q_def place_r_def place_s_def place_earth_def
  place_no_ra_def

lemma place_example_keys:
  "place_key place_p = Inr ''sky''"
  "place_key place_q = Inr ''sky''"
  "place_key place_r = Inr ''sky''"
  "place_key place_s = Inr ''sky''"
  "place_key place_earth = Inr ''earth''"
  "place_key place_no_ra = Inr ''sky''"
  by (simp_all add: place_eval place_key_eval lower_def lower_char_def upper_letters_def lower_letters_def)

lemma place_example_sortkeys:
  "sortkey place_p = Inr [PStr ''x'', PStr ''b'', PStr ''a'']"
  "sortkey place_q = Inr [PStr ''x'', PStr ''a'', PStr ''b'']"
  "sortkey place_r = Inr [PStr ''x'', PStr ''b'']"
  "sortkey place_s = Inr [PStr ''x'', PStr ''a'']"
  "sortkey place_earth = Inr [PStr ''a'']"
  "sortkey place_no_ra = Inl KeyError"
  by (simp_all add: place_eval sortkey_def url_part_def pair_part_def iter_items_def
      dict_get_def dict_item_def bind_err_def)

lemma place_example_sorted:
  "sorted_by_key sortkey [place_p, place_q] = Inr [place_q, place_p]"
  "sorted_by_key sortkey [place_r, place_s] = Inr [place_s, place_r]"
  "sorted_by_key sortkey [place_earth] = Inr [place_earth]"
  "sorted_by_key sortkey [place_no_ra] = Inl KeyError"
  by (simp_all add: sorted_by_key_def place_example_sortkeys bind_err_def)

lemma place_example_groups:
  "place_groups [place_p, place_q] [] = Inr [(''sky'', [place_p, place_q])]"
  "place_groups [place_r, place_s] [] = Inr [(''sky'', [place_r, place_s])]"
  "place_groups [place_earth, place_no_ra] [] =
     Inr [(''earth'', [place_earth]), (''sky'', [place_no_ra])]"
  "place_groups [place_no_ra] [] = Inr [(''sky'', [place_no_ra])]"
  by (simp_all add: place_example_keys bind_err_def)

lemma place_example_runs:
  "place_rewrite no_faults [place_p, place_q] place_fs =
     (None, \<lparr>db_dir = Some [''sky.yml'' \<mapsto> [place_q, place_p]], new_dir = None, old_dir = None\<rparr>)"
  "place_rewrite no_faults [place_r, place_s] place_fs =
     (None, \<lparr>db_dir = Some [''sky.yml'' \<mapsto> [place_s, place_r]], new_dir = None, old_dir = None\<rparr>)"
  "place_rewrite no_faults [place_earth, place_no_ra] place_fs =
     (Some KeyError, \<lparr>db_dir = Some Map.empty,
        new_dir = Some [''earth.yml'' \<mapsto> [place_earth]], old_dir = None\<rparr>)"
  unfolding place_rewrite_def place_example_groups
  by (simp_all add: place_example_sorted mkdir_new_def write_new_def swap_dirs_def no_faults_def
      place_fs_def)

subsection \<open>The order within a shard\<close>

text \<open>
  C1, as stated, fails. \<^verbatim>\<open>sortkey\<close> has three independent \<^verbatim>\<open>if\<close> statements for
  the URLs, so every URL that is present enters the key, not only the first. \<open>place_p\<close>
  and \<open>place_q\<close> have the same foreground URL; the key of the claim goes on with the
  names and puts \<open>place_p\<close> (name \<^verbatim>\<open>a\<close>) before \<open>place_q\<close> (name \<^verbatim>\<open>b\<close>), while
  the rewrite compares the image URLs first and writes \<open>place_q\<close> before \<open>place_p\<close>.
\<close>

theorem place_order_counterexample:
  "place_rewrite no_faults [place_p, place_q] place_fs =
     (None, \<lparr>db_dir = Some [''sky.yml'' \<mapsto> [place_q, place_p]], new_dir = None, old_dir = None\<rparr>) \<and>
   claimed_sortkey place_p = Inr [PStr ''x'', PStr ''a''] \<and>
   claimed_sortkey place_q = Inr [PStr ''x'', PStr ''b''] \<and>
   tuple_lt [PStr ''x'', PStr ''a''] [PStr ''x'', PStr ''b''] = Inr True"
proof (intro conjI)
  show "place_rewrite no_faults [place_p, place_q] place_fs =
     (None, \<lparr>db_dir = Some [''sky.yml'' \<mapsto> [place_q, place_p]], new_dir = None, old_dir = None\<rparr>)"
    by (rule place_example_runs(1))
  show "claimed_sortkey place_p = Inr [PStr ''x'', PStr ''a'']"
    by (simp add: claimed_sortkey_def first_url_part_def place_p_def pair_part_def
        dict_get_def dict_item_def bind_err_def)
  show "claimed_sortkey place_q = Inr [PStr ''x'', PStr ''b'']"
    by (simp add: claimed_sortkey_def first_url_part_def place_q_def pair_part_def
        dict_get_def dict_item_def bind_err_def)
  show "tuple_lt [PStr ''x'', PStr ''a''] [PStr ''x'', PStr ''b''] = Inr True"
    by simp
qed

text \<open>
  C1, amended. After a successful rewrite, take two records of one shard file, the first
  before the second, aligned on the three URL fields. Their keys, each made of the
  foreground URL if present, then the image URL if present, then the background URL if
  present, then \<^verbatim>\<open>(dec_deg, ra_hr)\<close> if \<^verbatim>\<open>dec_deg\<close> is present, then
  \<^verbatim>\<open>(latitude, longitude)\<close> if \<^verbatim>\<open>latitude\<close> is present, then \<^verbatim>\<open>name\<close>, exist, and
  the key of the second is not smaller than the key of the first. In particular, when the
  two records agree on every field of the key before the name, and the names are strings,
  the name of the first is not greater than the name of the second. Nothing is said of two
  records where one URL is a proper prefix of the other or is present in one record only.
\<close>

theorem place_shard_order:
  assumes run: "place_rewrite env infos s = (None, t)"
    and dir: "db_dir t = Some d" and fl: "d f = Some l"
    and ij: "i < j" "j < length l"
    and a1: "aligned (l ! i) (l ! j) ''foreground_image_set_url''"
    and a2: "aligned (l ! i) (l ! j) ''image_set_url''"
    and a3: "aligned (l ! i) (l ! j) ''background_image_set_url''"
  shows "\<exists>wi wj. amended_sortkey (l ! i) = Inr wi \<and> amended_sortkey (l ! j) = Inr wj \<and>
           tuple_lt wj wi \<noteq> Inr True \<and>
           (\<forall>n m. same_but_name (l ! i) (l ! j) \<and> (l ! i) ''name'' = Some (PStr n) \<and>
              (l ! j) ''name'' = Some (PStr m) \<longrightarrow> n \<le> m)"
proof -
  from place_rewrite_None[OF run]
  obtain d' where d': "db_dir t = Some d'"
    "\<forall>f l. d' f = Some l \<longrightarrow> (\<exists>xs. sorted_by_key sortkey xs = Inr l)" by (elim conjE exE)
  have "d' = d" using d'(1) dir by simp
  then obtain xs where xs: "sorted_by_key sortkey xs = Inr l" using d'(2) fl by blast
  from sorted_by_key_order[OF xs ij]
  obtain ki kj where k: "sortkey (l ! i) = Inr ki" "sortkey (l ! j) = Inr kj"
    "tuple_lt kj ki \<noteq> Inr True" by (elim exE conjE)
  from sortkey_rest_Inr[OF k(1)] obtain wi where wi: "amended_sortkey (l ! i) = Inr wi" ..
  from sortkey_rest_Inr[OF k(2)] obtain wj where wj: "amended_sortkey (l ! j) = Inr wj" ..
  from sortkey_amended[OF wj wi aligned_sym[OF a1] aligned_sym[OF a2] aligned_sym[OF a3]]
  obtain ka kb where kab: "sortkey (l ! j) = Inr ka" "sortkey (l ! i) = Inr kb"
    "tuple_lt ka kb = tuple_lt wj wi" by (elim exE conjE)
  have "ka = kj" "kb = ki" using kab(1,2) k(1,2) by simp_all
  then have ord: "tuple_lt wj wi \<noteq> Inr True" using kab(3) k(3) by simp
  have tie: "n \<le> m"
    if h: "same_but_name (l ! i) (l ! j) \<and> (l ! i) ''name'' = Some (PStr n) \<and>
      (l ! j) ''name'' = Some (PStr m)" for n m
  proof -
    from same_but_name_keys[OF h[THEN conjunct1] wi wj]
    obtain kk na nb where kk: "wi = kk @ [na]" "wj = kk @ [nb]"
      "dict_item (l ! i) ''name'' = Inr na" "dict_item (l ! j) ''name'' = Inr nb"
      by (elim exE conjE)
    have "na = PStr n" using kk(3) h by (simp add: dict_item_def)
    moreover have "nb = PStr m" using kk(4) h by (simp add: dict_item_def)
    ultimately have "tuple_lt wj wi = tuple_lt [PStr m] [PStr n]"
      unfolding kk(1,2) by (simp only: tuple_lt_common_prefix)
    then have "\<not> m < n" using ord by (auto split: if_splits)
    then show ?thesis by simp
  qed
  from wi wj ord tie show ?thesis by blast
qed

theorem place_shard_order_witness:
  "place_rewrite no_faults [place_r, place_s] place_fs =
     (None, \<lparr>db_dir = Some [''sky.yml'' \<mapsto> [place_s, place_r]], new_dir = None, old_dir = None\<rparr>) \<and>
   same_but_name place_s place_r \<and>
   (\<exists>wi wj. amended_sortkey place_s = Inr wi \<and> amended_sortkey place_r = Inr wj \<and>
      tuple_lt wj wi \<noteq> Inr True) \<and>
   ''a'' \<le> ''b''"
proof -
  let ?t = "\<lparr>db_dir = Some [''sky.yml'' \<mapsto> [place_s, place_r]], new_dir = None,
    old_dir = None\<rparr> :: info list fs"
  let ?l = "[place_s, place_r]"
  have run: "place_rewrite no_faults [place_r, place_s] place_fs = (None, ?t)"
    by (rule place_example_runs(2))
  have dir: "db_dir ?t = Some [''sky.yml'' \<mapsto> ?l]" by simp
  have fl: "[''sky.yml'' \<mapsto> ?l] ''sky.yml'' = Some ?l" by simp
  have ij: "(0::nat) < 1" "1 < length ?l" by simp_all
  have al: "aligned (?l ! 0) (?l ! 1) ''foreground_image_set_url''"
    "aligned (?l ! 0) (?l ! 1) ''image_set_url''"
    "aligned (?l ! 0) (?l ! 1) ''background_image_set_url''"
    by (simp_all add: aligned_def dict_get_def place_r_def place_s_def)
  have same: "same_but_name place_s place_r"
    by (simp add: same_but_name_def place_r_def place_s_def)
  from place_shard_order[OF run dir fl ij al]
  obtain wi wj where w: "amended_sortkey (?l ! 0) = Inr wi" "amended_sortkey (?l ! 1) = Inr wj"
    "tuple_lt wj wi \<noteq> Inr True"
    and tie: "\<forall>n m. same_but_name (?l ! 0) (?l ! 1) \<and> (?l ! 0) ''name'' = Some (PStr n) \<and>
      (?l ! 1) ''name'' = Some (PStr m) \<longrightarrow> n \<le> m"
    by (elim exE conjE)
  have "same_but_name (?l ! 0) (?l ! 1) \<and> (?l ! 0) ''name'' = Some (PStr ''a'') \<and>
      (?l ! 1) ''name'' = Some (PStr ''b'')"
    using same by (simp add: place_r_def place_s_def)
  with tie have "''a'' \<le> ''b''" by (elim allE impE)
  moreover have "\<exists>wi wj. amended_sortkey place_s = Inr wi \<and> amended_sortkey place_r = Inr wj \<and>
      tuple_lt wj wi \<noteq> Inr True"
    using w by simp
  ultimately show ?thesis using run same by (intro conjI)
qed

subsection \<open>Records with one coordinate of a pair\<close>

lemma place_groups_distinct:
  "place_groups infos g = Inr g' \<Longrightarrow> distinct (map fst g) \<Longrightarrow> distinct (map fst g')"
proof (induction infos arbitrary: g)
  case Nil
  then show ?case by simp
next
  case (Cons i infos)
  obtain k where k: "place_key i = Inr k"
    using Cons.prems(1) by (cases "place_key i") (auto simp: bind_err_def)
  then have "place_groups infos (group_add k i g) = Inr g'"
    using Cons.prems(1) by (simp add: bind_err_def)
  moreover have "distinct (map fst (group_add k i g))"
    using Cons.prems(2) by (rule group_add_distinct)
  ultimately show ?case by (rule Cons.IH)
qed

lemma write_place_shards_prefix:
  assumes "new_dir s = Some d0" and "list_all (shard_written env) g1" and "distinct (map fst g1)"
  shows "\<exists>d. write_place_shards env (g1 @ rest) s =
             write_place_shards env rest (s\<lparr>new_dir := Some d\<rparr>) \<and>
           dom d = dom d0 \<union> shard_file ` set g1 \<and>
           (\<forall>p \<in> set g1. \<exists>l. sorted_by_key sortkey (snd p) = Inr l \<and> d (shard_file p) = Some l) \<and>
           (\<forall>f. f \<notin> shard_file ` set g1 \<longrightarrow> d f = d0 f)"
  using assms
proof (induction g1 arbitrary: s d0)
  case Nil
  have "s\<lparr>new_dir := Some d0\<rparr> = s" using Nil.prems(1) by simp
  then show ?case by (intro exI[of _ d0]) simp
next
  case (Cons a g1)
  obtain k xs where a: "a = (k, xs)" by (cases a)
  have w: "\<not> env (OpenFile (k @ ''.yml''))" using Cons.prems(2) a by (simp add: shard_written_def)
  obtain l where l: "sorted_by_key sortkey xs = Inr l"
    using Cons.prems(2) a by (cases "sorted_by_key sortkey xs") (simp_all add: shard_written_def)
  let ?d1 = "d0(k @ ''.yml'' \<mapsto> l)"
  let ?s1 = "s\<lparr>new_dir := Some ?d1\<rparr>"
  have wn: "write_new env (k @ ''.yml'') l s = Inr ?s1"
    using Cons.prems(1) w by (simp add: write_new_def)
  have step: "write_place_shards env ((a # g1) @ rest) s = write_place_shards env (g1 @ rest) ?s1"
    using a l wn by simp
  have n1: "new_dir ?s1 = Some ?d1" by simp
  have rest_ok: "list_all (shard_written env) g1" using Cons.prems(2) by simp
  have dist: "distinct (map fst g1)" and fresh: "k \<notin> fst ` set g1"
    using Cons.prems(3) a by simp_all
  from Cons.IH[OF n1 rest_ok dist]
  obtain d where d: "write_place_shards env (g1 @ rest) ?s1 =
        write_place_shards env rest (?s1\<lparr>new_dir := Some d\<rparr>)"
      "dom d = dom ?d1 \<union> shard_file ` set g1"
      "\<forall>p \<in> set g1. \<exists>l. sorted_by_key sortkey (snd p) = Inr l \<and> d (shard_file p) = Some l"
      "\<forall>f. f \<notin> shard_file ` set g1 \<longrightarrow> d f = ?d1 f"
    by (elim exE conjE)
  have kf: "k @ ''.yml'' \<notin> shard_file ` set g1"
    using fresh by (auto simp: shard_file_def)
  have dk: "d (k @ ''.yml'') = Some l" using d(4) kf by simp
  have c1: "write_place_shards env ((a # g1) @ rest) s =
      write_place_shards env rest (s\<lparr>new_dir := Some d\<rparr>)"
    using step d(1) by simp
  have c2: "dom d = dom d0 \<union> shard_file ` set (a # g1)"
    using d(2) a by (auto simp: shard_file_def)
  have c3: "\<forall>p \<in> set (a # g1). \<exists>l. sorted_by_key sortkey (snd p) = Inr l \<and>
      d (shard_file p) = Some l"
    using d(3) dk l a by (simp add: shard_file_def)
  have c4: "\<forall>f. f \<notin> shard_file ` set (a # g1) \<longrightarrow> d f = d0 f"
    using d(4) a by (simp add: shard_file_def)
  from c1 c2 c3 c4 show ?case by blast
qed


text \<open>
  C10, as stated, fails in one point: the rewrite sorts and writes the shards one after the
  other, so the shards before the one with the faulty record are already written to the
  temporary directory when the lookup fails, and they stay there. Here the shard
  \<^verbatim>\<open>earth.yml\<close> is written before the key of \<open>place_no_ra\<close> is computed.
\<close>

theorem place_rewrite_partial_files_counterexample:
  "lacks_partner place_no_ra \<and>
   place_rewrite no_faults [place_earth, place_no_ra] place_fs =
     (Some KeyError, \<lparr>db_dir = Some Map.empty,
        new_dir = Some [''earth.yml'' \<mapsto> [place_earth]], old_dir = None\<rparr>)"
proof (intro conjI)
  show "lacks_partner place_no_ra"
    by (simp add: lacks_partner_def place_no_ra_def dict_get_def)
  show "place_rewrite no_faults [place_earth, place_no_ra] place_fs =
     (Some KeyError, \<lparr>db_dir = Some Map.empty,
        new_dir = Some [''earth.yml'' \<mapsto> [place_earth]], old_dir = None\<rparr>)"
    by (rule place_example_runs(3))
qed

text \<open>
  C10, amended. When a held record has \<^verbatim>\<open>dec_deg\<close> and no \<^verbatim>\<open>ra_hr\<close>, or
  \<^verbatim>\<open>latitude\<close> and no \<^verbatim>\<open>longitude\<close>, and the shard keys are plain file names, no
  rewrite succeeds: it raises, and the catalogue directory and the \<^verbatim>\<open>.old\<close> path
  are as they were. The sort key of such a record with well-typed URL fields raises
  \<^verbatim>\<open>KeyError\<close>. When the URL fields of the records of its shard are well typed, the
  temporary directory can be made and every shard before its shard is written, the
  rewrite raises \<^verbatim>\<open>KeyError\<close> and leaves in the temporary directory exactly the files
  of the shards before, each with its sorted records: none when the record is in the first
  shard.
\<close>

theorem place_rewrite_lacking_partner:
  assumes mem: "i \<in> set infos" and bad: "lacks_partner i" and plain: "plain_keys infos"
  shows "(\<exists>e t. place_rewrite env infos s = (Some e, t) \<and> db_dir t = db_dir s \<and>
            old_dir t = old_dir s) \<and>
         (urls_ok i \<longrightarrow> sortkey i = Inl KeyError) \<and>
         (\<forall>g1 k xs g2. place_groups infos [] = Inr (g1 @ (k, xs) # g2) \<and> i \<in> set xs \<and>
            list_all urls_ok xs \<and> \<not> env Mkdir \<and> new_dir s = None \<and>
            list_all (shard_written env) g1 \<longrightarrow>
            (\<exists>d. place_rewrite env infos s = (Some KeyError, s\<lparr>new_dir := Some d\<rparr>) \<and>
               dom d = shard_file ` set g1 \<and>
               (\<forall>p \<in> set g1. \<exists>l. sorted_by_key sortkey (snd p) = Inr l \<and>
                  d (shard_file p) = Some l)))"
proof -
  have nokey: "\<not> (\<exists>k. sortkey i = Inr k)" using bad by (rule lacks_partner_sortkey)
  have one: "\<exists>e t. place_rewrite env infos s = (Some e, t) \<and> db_dir t = db_dir s \<and>
      old_dir t = old_dir s"
  proof (cases "place_groups infos []")
    case (Inl e)
    then show ?thesis by (simp add: place_rewrite_def)
  next
    case g: (Inr g)
    show ?thesis
    proof (cases "mkdir_new env s")
      case (Inl e)
      then show ?thesis using g by (simp add: place_rewrite_def)
    next
      case s1: (Inr s1)
      then have d1: "db_dir s1 = db_dir s" "old_dir s1 = old_dir s"
        by (auto simp: mkdir_new_def split: if_splits)
      obtain r s2 where w: "write_place_shards env g s1 = (r, s2)"
        by (cases "write_place_shards env g s1")
      have d2: "db_dir s2 = db_dir s" "old_dir s2 = old_dir s"
        using write_place_shards_dirs[OF w] d1 by simp_all
      show ?thesis
      proof (cases r)
        case None
        have all: "\<forall>p \<in> set g. \<exists>l. sorted_by_key sortkey (snd p) = Inr l"
          using write_place_shards_None[of env g s1 s2] w None by simp
        have "i \<in> (\<Union>p \<in> set g. set (snd p))" using place_groups_members[OF g] mem by simp
        then obtain p where p: "p \<in> set g" "i \<in> set (snd p)" by auto
        then obtain l where "sorted_by_key sortkey (snd p) = Inr l" using all by blast
        then have "\<exists>k. sortkey i = Inr k" using p(2) by (rule sorted_by_key_keys)
        then show ?thesis using nokey by simp
      next
        case (Some e)
        then have "place_rewrite env infos s = (Some e, s2)"
          using g s1 w by (simp add: place_rewrite_def)
        then show ?thesis using d2 by simp
      qed
    qed
  qed
  have two: "sortkey i = Inl KeyError" if "urls_ok i"
  proof (cases "sortkey i")
    case (Inl e)
    then show ?thesis using urls_ok_sortkey_error[OF that Inl] by simp
  next
    case (Inr k)
    then show ?thesis using nokey by simp
  qed
  have three: "\<exists>d. place_rewrite env infos s = (Some KeyError, s\<lparr>new_dir := Some d\<rparr>) \<and>
      dom d = shard_file ` set g1 \<and>
      (\<forall>p \<in> set g1. \<exists>l. sorted_by_key sortkey (snd p) = Inr l \<and> d (shard_file p) = Some l)"
    if h: "place_groups infos [] = Inr (g1 @ (k, xs) # g2) \<and> i \<in> set xs \<and>
      list_all urls_ok xs \<and> \<not> env Mkdir \<and> new_dir s = None \<and>
      list_all (shard_written env) g1" for g1 k xs g2
  proof -
    have grp: "place_groups infos [] = Inr (g1 @ (k, xs) # g2)" using h by simp
    have e: "\<forall>x \<in> set xs. \<forall>e. sortkey x = Inl e \<longrightarrow> e = KeyError"
      using h urls_ok_sortkey_error by (auto simp: list_all_iff)
    have "\<exists>x \<in> set xs. \<forall>k. sortkey x \<noteq> Inr k" using h nokey by auto
    with e have "map_err sortkey xs = Inl KeyError" by (rule map_err_first_error)
    then have srt: "sorted_by_key sortkey xs = Inl KeyError"
      by (simp add: sorted_by_key_def bind_err_def)
    let ?s1 = "s\<lparr>new_dir := Some Map.empty\<rparr>"
    have mk: "mkdir_new env s = Inr ?s1" using h by (simp add: mkdir_new_def)
    have "distinct (map fst (g1 @ (k, xs) # g2))"
      using place_groups_distinct[OF grp] by simp
    then have dist: "distinct (map fst g1)" by simp
    have n1: "new_dir ?s1 = Some Map.empty" by simp
    have wr: "list_all (shard_written env) g1" using h by simp
    from write_place_shards_prefix[OF n1 wr dist, of "(k, xs) # g2"]
    obtain d where d: "write_place_shards env (g1 @ (k, xs) # g2) ?s1 =
          write_place_shards env ((k, xs) # g2) (?s1\<lparr>new_dir := Some d\<rparr>)"
        "dom d = dom (Map.empty :: string \<rightharpoonup> info list) \<union> shard_file ` set g1"
        "\<forall>p \<in> set g1. \<exists>l. sorted_by_key sortkey (snd p) = Inr l \<and> d (shard_file p) = Some l"
      by (elim exE conjE)
    have "write_place_shards env (g1 @ (k, xs) # g2) ?s1 = (Some KeyError, s\<lparr>new_dir := Some d\<rparr>)"
      using d(1) srt by simp
    then have "place_rewrite env infos s = (Some KeyError, s\<lparr>new_dir := Some d\<rparr>)"
      using grp mk by (simp add: place_rewrite_def)
    moreover have "dom d = shard_file ` set g1" using d(2) by simp
    ultimately show ?thesis using d(3) by blast
  qed
  from one two three show ?thesis by blast
qed

theorem place_rewrite_lacking_partner_witness:
  "lacks_partner place_no_ra \<and> urls_ok place_no_ra \<and> plain_keys [place_earth, place_no_ra] \<and>
   sortkey place_no_ra = Inl KeyError \<and>
   (\<exists>d. place_rewrite no_faults [place_earth, place_no_ra] place_fs =
           (Some KeyError, place_fs\<lparr>new_dir := Some d\<rparr>) \<and>
         dom d = {''earth.yml''} \<and> d ''earth.yml'' = Some [place_earth])"
proof -
  have mem: "place_no_ra \<in> set [place_earth, place_no_ra]" by simp
  have bad: "lacks_partner place_no_ra"
    by (simp add: lacks_partner_def place_no_ra_def dict_get_def)
  have ok: "urls_ok place_no_ra"
    by (simp add: urls_ok_def url_ok_def place_no_ra_def dict_get_def)
  have plain: "plain_keys [place_earth, place_no_ra]"
    by (simp add: plain_keys_def place_example_keys plain_name_def)
  note th = place_rewrite_lacking_partner[OF mem bad plain, of no_faults place_fs]
  from th have two: "urls_ok place_no_ra \<longrightarrow> sortkey place_no_ra = Inl KeyError"
    by (elim conjE)
  from th have three: "\<forall>g1 k xs g2.
      place_groups [place_earth, place_no_ra] [] = Inr (g1 @ (k, xs) # g2) \<and>
      place_no_ra \<in> set xs \<and> list_all urls_ok xs \<and> \<not> no_faults Mkdir \<and>
      new_dir place_fs = None \<and> list_all (shard_written no_faults) g1 \<longrightarrow>
      (\<exists>d. place_rewrite no_faults [place_earth, place_no_ra] place_fs =
              (Some KeyError, place_fs\<lparr>new_dir := Some d\<rparr>) \<and>
         dom d = shard_file ` set g1 \<and>
         (\<forall>p \<in> set g1. \<exists>l. sorted_by_key sortkey (snd p) = Inr l \<and>
            d (shard_file p) = Some l))"
    by (elim conjE)
  have "place_groups [place_earth, place_no_ra] [] =
        Inr ([(''earth'', [place_earth])] @ (''sky'', [place_no_ra]) # []) \<and>
      place_no_ra \<in> set [place_no_ra] \<and> list_all urls_ok [place_no_ra] \<and>
      \<not> no_faults Mkdir \<and> new_dir place_fs = None \<and>
      list_all (shard_written no_faults) [(''earth'', [place_earth])]"
    using ok place_example_groups(3) place_example_sorted(3)
    by (simp add: no_faults_def place_fs_def shard_written_def del: place_groups.simps)
  with three have "\<exists>d. place_rewrite no_faults [place_earth, place_no_ra] place_fs =
        (Some KeyError, place_fs\<lparr>new_dir := Some d\<rparr>) \<and>
      dom d = shard_file ` set [(''earth'', [place_earth])] \<and>
      (\<forall>p \<in> set [(''earth'', [place_earth])]. \<exists>l. sorted_by_key sortkey (snd p) = Inr l \<and>
         d (shard_file p) = Some l)"
    by (elim allE impE)
  then obtain d where d: "place_rewrite no_faults [place_earth, place_no_ra] place_fs =
        (Some KeyError, place_fs\<lparr>new_dir := Some d\<rparr>)"
      "dom d = shard_file ` set [(''earth'', [place_earth])]"
      "\<forall>p \<in> set [(''earth'', [place_earth])]. \<exists>l. sorted_by_key sortkey (snd p) = Inr l \<and>
         d (shard_file p) = Some l"
    by (elim exE conjE)
  have "dom d = {''earth.yml''}" using d(2) by (simp add: shard_file_def)
  moreover have "d ''earth.yml'' = Some [place_earth]"
    using d(3) place_example_sorted(3) by (simp add: shard_file_def)
  ultimately have "\<exists>d. place_rewrite no_faults [place_earth, place_no_ra] place_fs =
           (Some KeyError, place_fs\<lparr>new_dir := Some d\<rparr>) \<and>
         dom d = {''earth.yml''} \<and> d ''earth.yml'' = Some [place_earth]"
    using d(1) by blast
  moreover from two ok have "sortkey place_no_ra = Inl KeyError" by (elim impE)
  ultimately show ?thesis using bad ok plain by (intro conjI)
qed

end
